theory Spec2Isabelle
  imports Main "HOL-Library.Product_Lexorder"
begin

section \<open>The course catalog (lib/course-data.ts)\<close>

text \<open>
  The catalog is a module-level array literal of parts, each holding its chapters.
  The interfaces \<open>Chapter\<close> and \<open>CoursePart\<close> become records with the source's field
  names; the optional field \<open>isNew\<close> is an option, the string union \<open>status\<close> a
  datatype. Chapter and part numbers are the integers of the literal.
\<close>

datatype PartStatus = Completed | InProgress | ComingSoon

record Chapter =
  id :: string
  number :: int
  title :: string
  slug :: string
  path :: string
  isNew :: "bool option"

record CoursePart =
  id :: string
  number :: int
  title :: string
  description :: string
  status :: PartStatus
  chapters :: "Chapter list"

definition mkChapter :: "string \<Rightarrow> int \<Rightarrow> string \<Rightarrow> string \<Rightarrow> string \<Rightarrow> Chapter" where
  "mkChapter i n t s p =
     \<lparr>Chapter.id = i, Chapter.number = n, Chapter.title = t, Chapter.slug = s,
      Chapter.path = p, Chapter.isNew = None\<rparr>"

definition ch01 :: Chapter where
  "ch01 = mkChapter ''ch01'' 1 ''What is React Native & How It Works'' ''what-is-react-native''
     ''/course_data/Part1-Foundations/Chapter01-What-Is-React-Native/README.md''"

definition ch02 :: Chapter where
  "ch02 = mkChapter ''ch02'' 2 ''Environment Setup & Your First App'' ''environment-setup''
     ''/course_data/Part1-Foundations/Chapter02-Environment-Setup/README.md''"

definition ch03 :: Chapter where
  "ch03 = mkChapter ''ch03'' 3 ''Understanding Components - The Building Blocks''
     ''understanding-components''
     ''/course_data/Part1-Foundations/Chapter03-Understanding-Components/README.md''"

definition ch04 :: Chapter where
  "ch04 = mkChapter ''ch04'' 4 ''Styling Your App'' ''styling-your-app''
     ''/course_data/Part1-Foundations/Chapter04-Styling-Your-App/README.md''"

definition ch05 :: Chapter where
  "ch05 = mkChapter ''ch05'' 5 ''Handling User Interaction'' ''handling-user-interaction''
     ''/course_data/Part1-Foundations/Chapter05-Handling-User-Interaction/README.md''"

definition ch06 :: Chapter where
  "ch06 = mkChapter ''ch06'' 6 ''Props - Passing Data Between Components'' ''props''
     ''/course_data/Part2-Core-Concepts/Chapter06-Props/README.md''"

definition ch07 :: Chapter where
  "ch07 = mkChapter ''ch07'' 7 ''State - Making Components Dynamic'' ''state''
     ''/course_data/Part2-Core-Concepts/Chapter07-State/README.md''"

definition ch08 :: Chapter where
  "ch08 = mkChapter ''ch08'' 8 ''Lists & Keys - Displaying Dynamic Data'' ''lists-and-keys''
     ''/course_data/Part2-Core-Concepts/Chapter08-Lists-And-Keys/README.md''"

definition ch09 :: Chapter where
  "ch09 = mkChapter ''ch09'' 9 ''useEffect - Side Effects & Lifecycle'' ''use-effect''
     ''/course_data/Part2-Core-Concepts/Chapter09-UseEffect/README.md''"

definition ch10 :: Chapter where
  "ch10 = mkChapter ''ch10'' 10 ''Navigation - Moving Between Screens'' ''navigation''
     ''/course_data/Part2-Core-Concepts/Chapter10-Navigation/README.md''"

definition ch11 :: Chapter where
  "ch11 = mkChapter ''ch11'' 11 ''Context API & Global State'' ''context-api''
     ''/course_data/Part2-Core-Concepts/Chapter11-ContextAPI/README.md''"

definition ch12 :: Chapter where
  "ch12 = mkChapter ''ch12'' 12 ''Architecture Patterns'' ''architecture-patterns''
     ''/course_data/Part3-Advanced-Topics/Chapter12-Architecture-Patterns/README.md''"

definition ch13 :: Chapter where
  "ch13 = mkChapter ''ch13'' 13 ''Advanced State Management (Zustand/Redux)''
     ''advanced-state-management''
     ''/course_data/Part3-Advanced-Topics/Chapter13-Advanced-State-Management/README.md''"

definition ch14 :: Chapter where
  "ch14 = mkChapter ''ch14'' 14 ''Async Operations & Data Fetching (React Query)''
     ''async-operations''
     ''/course_data/Part3-Advanced-Topics/Chapter14-Async-Operations-Data-Fetching/README.md''"

definition ch15 :: Chapter where
  "ch15 = mkChapter ''ch15'' 15 ''Native Modules & Platform APIs'' ''native-modules''
     ''/course_data/Part3-Advanced-Topics/Chapter15-Native-Modules-Platform-APIs/README.md''"

definition ch16 :: Chapter where
  "ch16 = mkChapter ''ch16'' 16 ''Testing Your React Native App'' ''testing''
     ''/course_data/Part3-Advanced-Topics/Chapter16-Testing/README.md''"

definition ch17 :: Chapter where
  "ch17 = mkChapter ''ch17'' 17 ''Performance & Production Ready'' ''performance-production''
     ''/course_data/Part3-Advanced-Topics/Chapter17-Performance-Production/README.md''"

definition part1 :: CoursePart where
  "part1 = \<lparr>CoursePart.id = ''part1'', CoursePart.number = 1,
     CoursePart.title = ''Foundations'',
     CoursePart.description = ''Build your foundation and understand the basics'',
     CoursePart.status = Completed,
     CoursePart.chapters = [ch01, ch02, ch03, ch04, ch05]\<rparr>"

definition part2 :: CoursePart where
  "part2 = \<lparr>CoursePart.id = ''part2'', CoursePart.number = 2,
     CoursePart.title = ''Core Concepts'',
     CoursePart.description = ''Master the fundamentals that power every app'',
     CoursePart.status = Completed,
     CoursePart.chapters = [ch06, ch07, ch08, ch09, ch10, ch11]\<rparr>"

definition part3 :: CoursePart where
  "part3 = \<lparr>CoursePart.id = ''part3'', CoursePart.number = 3,
     CoursePart.title = ''Advanced Topics'',
     CoursePart.description =
       ''Professional patterns, native integration, and production practices'',
     CoursePart.status = Completed,
     CoursePart.chapters = [ch12, ch13, ch14, ch15, ch16, ch17]\<rparr>"

definition courseParts :: "CoursePart list" where
  "courseParts = [part1, part2, part3]"

text \<open>
  The functions of the module read the global \<open>courseParts\<close>. Here the catalog is an
  explicit first argument, so that statements about every catalog can be written;
  the program's own calls are the instances at \<open>courseParts\<close>.
\<close>

definition getAllChapters :: "CoursePart list \<Rightarrow> Chapter list" where
  "getAllChapters parts = concat (map CoursePart.chapters parts)"

definition getChapterBySlug :: "CoursePart list \<Rightarrow> string \<Rightarrow> Chapter option" where
  "getChapterBySlug parts s = find (\<lambda>chapter. Chapter.slug chapter = s) (getAllChapters parts)"

definition getPartByNumber :: "CoursePart list \<Rightarrow> int \<Rightarrow> CoursePart option" where
  "getPartByNumber parts partNumber = find (\<lambda>p. CoursePart.number p = partNumber) parts"

text \<open>\<open>Array.prototype.findIndex\<close>: the first index whose element satisfies the
  predicate, \<open>-1\<close> when there is none.\<close>

fun findIndex :: "('a \<Rightarrow> bool) \<Rightarrow> 'a list \<Rightarrow> int" where
  "findIndex P [] = -1"
| "findIndex P (x # xs) =
     (if P x then 0 else (let i = findIndex P xs in if i < 0 then -1 else i + 1))"

definition getNextChapter :: "CoursePart list \<Rightarrow> string \<Rightarrow> Chapter option" where
  "getNextChapter parts currentSlug =
     (let chs = getAllChapters parts;
          currentIndex = findIndex (\<lambda>ch. Chapter.slug ch = currentSlug) chs
      in if currentIndex \<ge> 0 \<and> currentIndex < int (length chs) - 1
         then Some (chs ! nat (currentIndex + 1))
         else None)"

definition getPreviousChapter :: "CoursePart list \<Rightarrow> string \<Rightarrow> Chapter option" where
  "getPreviousChapter parts currentSlug =
     (let chs = getAllChapters parts;
          currentIndex = findIndex (\<lambda>ch. Chapter.slug ch = currentSlug) chs
      in if currentIndex > 0 then Some (chs ! nat (currentIndex - 1)) else None)"

lemma getAllChapters_courseParts:
  "getAllChapters courseParts =
     [ch01, ch02, ch03, ch04, ch05, ch06, ch07, ch08, ch09, ch10, ch11,
      ch12, ch13, ch14, ch15, ch16, ch17]"
  by (simp add: getAllChapters_def courseParts_def part1_def part2_def part3_def)


lemmas chapter_defs = ch01_def ch02_def ch03_def ch04_def ch05_def ch06_def ch07_def ch08_def
  ch09_def ch10_def ch11_def ch12_def ch13_def ch14_def ch15_def ch16_def ch17_def

lemmas part_defs = part1_def part2_def part3_def

lemma slugs_courseParts:
  "map Chapter.slug (getAllChapters courseParts) =
     [''what-is-react-native'', ''environment-setup'', ''understanding-components'',
      ''styling-your-app'', ''handling-user-interaction'', ''props'', ''state'',
      ''lists-and-keys'', ''use-effect'', ''navigation'', ''context-api'',
      ''architecture-patterns'', ''advanced-state-management'', ''async-operations'',
      ''native-modules'', ''testing'', ''performance-production'']"
  by (simp add: getAllChapters_courseParts chapter_defs mkChapter_def)

lemma ids_courseParts:
  "map Chapter.id (getAllChapters courseParts) =
     [''ch01'', ''ch02'', ''ch03'', ''ch04'', ''ch05'', ''ch06'', ''ch07'', ''ch08'', ''ch09'',
      ''ch10'', ''ch11'', ''ch12'', ''ch13'', ''ch14'', ''ch15'', ''ch16'', ''ch17'']"
  by (simp add: getAllChapters_courseParts chapter_defs mkChapter_def)

lemma numbers_courseParts:
  "map Chapter.number (getAllChapters courseParts) =
     [1, 2, 3, 4, 5, 6, 7, 8, 9, 10, 11, 12, 13, 14, 15, 16, 17]"
  by (simp add: getAllChapters_courseParts chapter_defs mkChapter_def)

lemma distinct_slugs_courseParts: "distinct (map Chapter.slug (getAllChapters courseParts))"
  unfolding slugs_courseParts by simp

lemma distinct_ids_courseParts: "distinct (map Chapter.id (getAllChapters courseParts))"
  unfolding ids_courseParts by simp

lemma distinct_numbers_courseParts:
  "distinct (map Chapter.number (getAllChapters courseParts))"
  unfolding numbers_courseParts by simp

subsection \<open>Positions found by \<open>findIndex\<close>\<close>

lemma findIndex_ge: "findIndex P xs \<ge> -1"
  by (induction xs) (auto simp: Let_def)

lemma findIndex_neg_iff: "(findIndex P xs < 0) = (\<forall>x\<in>set xs. \<not> P x)"
  by (induction xs) (auto simp: Let_def)

lemma findIndex_none: "(findIndex P xs = -1) = (\<forall>x\<in>set xs. \<not> P x)"
  using findIndex_ge[of P xs] findIndex_neg_iff[of P xs] by auto

lemma findIndex_nth:
  "i < length xs \<Longrightarrow> P (xs ! i) \<Longrightarrow> (\<forall>j<i. \<not> P (xs ! j)) \<Longrightarrow> findIndex P xs = int i"
proof (induction xs arbitrary: i)
  case Nil
  then show ?case by simp
next
  case (Cons x xs)
  show ?case
  proof (cases i)
    case 0
    with Cons.prems show ?thesis by simp
  next
    case (Suc k)
    from Cons.prems(3) Suc have "\<not> P ((x # xs) ! 0)" by blast
    then have nx: "\<not> P x" by simp
    have "\<forall>j<k. \<not> P (xs ! j)"
    proof (intro allI impI)
      fix j assume "j < k"
      then have "Suc j < i" using Suc by simp
      with Cons.prems(3) have "\<not> P ((x # xs) ! Suc j)" by blast
      then show "\<not> P (xs ! j)" by simp
    qed
    moreover have "k < length xs" "P (xs ! k)" using Cons.prems Suc by auto
    ultimately have "findIndex P xs = int k" by (rule Cons.IH[rotated 2])
    with nx Suc show ?thesis by (simp add: Let_def)
  qed
qed

lemma findIndex_distinct:
  assumes "distinct (map f xs)" "i < length xs"
  shows "findIndex (\<lambda>x. f x = f (xs ! i)) xs = int i"
proof (rule findIndex_nth)
  show "i < length xs" by fact
  show "f (xs ! i) = f (xs ! i)" by simp
  show "\<forall>j<i. f (xs ! j) \<noteq> f (xs ! i)"
  proof (intro allI impI)
    fix j assume "j < i"
    then have "j < length xs" "j \<noteq> i" using assms(2) by auto
    then show "f (xs ! j) \<noteq> f (xs ! i)"
      using assms by (metis distinct_conv_nth length_map nth_map)
  qed
qed

lemma getNextChapter_nth:
  assumes "distinct (map Chapter.slug (getAllChapters parts))"
    and "i < length (getAllChapters parts)"
  shows "getNextChapter parts (Chapter.slug (getAllChapters parts ! i)) =
           (if Suc i < length (getAllChapters parts)
            then Some (getAllChapters parts ! Suc i) else None)"
  using assms(2)
  by (auto simp: getNextChapter_def Let_def findIndex_distinct[OF assms] nat_add_distrib)

lemma getPreviousChapter_nth:
  assumes "distinct (map Chapter.slug (getAllChapters parts))"
    and "i < length (getAllChapters parts)"
  shows "getPreviousChapter parts (Chapter.slug (getAllChapters parts ! i)) =
           (if 0 < i then Some (getAllChapters parts ! (i - 1)) else None)"
  using assms(2)
  by (auto simp: getPreviousChapter_def Let_def findIndex_distinct[OF assms] nat_diff_distrib)

lemma getChapterBySlug_nth:
  assumes "distinct (map Chapter.slug (getAllChapters parts))"
    and "i < length (getAllChapters parts)"
  shows "getChapterBySlug parts (Chapter.slug (getAllChapters parts ! i)) =
           Some (getAllChapters parts ! i)"
proof -
  have "\<forall>j<i. Chapter.slug (getAllChapters parts ! j) \<noteq> Chapter.slug (getAllChapters parts ! i)"
  proof (intro allI impI)
    fix j assume "j < i"
    then have "j < length (getAllChapters parts)" "j \<noteq> i" using assms(2) by auto
    then show "Chapter.slug (getAllChapters parts ! j) \<noteq> Chapter.slug (getAllChapters parts ! i)"
      using assms by (metis distinct_conv_nth length_map nth_map)
  qed
  then show ?thesis
    using assms(2) unfolding getChapterBySlug_def find_Some_iff by (intro exI[of _ i]) simp
qed

lemma slug_known_nth:
  "s \<in> Chapter.slug ` set (getAllChapters parts) \<Longrightarrow>
   \<exists>i < length (getAllChapters parts). s = Chapter.slug (getAllChapters parts ! i)"
  by (auto simp: in_set_conv_nth)

lemma getPreviousChapter_unknown:
  "s \<notin> Chapter.slug ` set (getAllChapters parts) \<Longrightarrow> getPreviousChapter parts s = None"
  using findIndex_none[of "\<lambda>ch. Chapter.slug ch = s" "getAllChapters parts"]
  by (auto simp: getPreviousChapter_def Let_def)

lemma getNextChapter_unknown:
  "s \<notin> Chapter.slug ` set (getAllChapters parts) \<Longrightarrow> getNextChapter parts s = None"
  using findIndex_none[of "\<lambda>ch. Chapter.slug ch = s" "getAllChapters parts"]
  by (auto simp: getNextChapter_def Let_def)

subsection \<open>Next and previous chapter\<close>

text \<open>
  Claim C7. In a catalog whose slugs are pairwise distinct, \<open>getNextChapter\<close> of the slug
  of the chapter at position \<open>i\<close> of the global order is the chapter at position
  \<open>i + 1\<close>, and nothing for the last position; \<open>getPreviousChapter\<close> is the chapter at
  position \<open>i - 1\<close>, and nothing for the first position; for a slug that no chapter
  has, both return nothing. Every case is a value of the option type: no call fails.
\<close>

theorem getNextChapter_getPreviousChapter_adjacent:
  assumes "distinct (map Chapter.slug (getAllChapters parts))"
  shows "(\<forall>i < length (getAllChapters parts).
           getNextChapter parts (Chapter.slug (getAllChapters parts ! i)) =
             (if Suc i < length (getAllChapters parts)
              then Some (getAllChapters parts ! Suc i) else None) \<and>
           getPreviousChapter parts (Chapter.slug (getAllChapters parts ! i)) =
             (if 0 < i then Some (getAllChapters parts ! (i - 1)) else None)) \<and>
         (\<forall>s. s \<notin> Chapter.slug ` set (getAllChapters parts) \<longrightarrow>
            getNextChapter parts s = None \<and> getPreviousChapter parts s = None)"
proof (intro conjI allI impI)
  fix i assume i: "i < length (getAllChapters parts)"
  show "getNextChapter parts (Chapter.slug (getAllChapters parts ! i)) =
          (if Suc i < length (getAllChapters parts)
           then Some (getAllChapters parts ! Suc i) else None)"
    by (rule getNextChapter_nth[OF assms i])
  show "getPreviousChapter parts (Chapter.slug (getAllChapters parts ! i)) =
          (if 0 < i then Some (getAllChapters parts ! (i - 1)) else None)"
    by (rule getPreviousChapter_nth[OF assms i])
next
  fix s assume s: "s \<notin> Chapter.slug ` set (getAllChapters parts)"
  show "getNextChapter parts s = None" by (rule getNextChapter_unknown[OF s])
  show "getPreviousChapter parts s = None" by (rule getPreviousChapter_unknown[OF s])
qed

theorem getNextChapter_getPreviousChapter_adjacent_witness:
  "distinct (map Chapter.slug (getAllChapters courseParts)) \<and>
   getNextChapter courseParts ''understanding-components'' = Some ch04 \<and>
   getPreviousChapter courseParts ''styling-your-app'' = Some ch03 \<and>
   getNextChapter courseParts ''performance-production'' = None \<and>
   getPreviousChapter courseParts ''what-is-react-native'' = None \<and>
   getNextChapter courseParts ''does-not-exist'' = None \<and>
   getPreviousChapter courseParts ''does-not-exist'' = None"
proof -
  note adj = getNextChapter_getPreviousChapter_adjacent[OF distinct_slugs_courseParts]
  have len: "length (getAllChapters courseParts) = 17"
    by (simp add: getAllChapters_courseParts)
  have a: "getNextChapter courseParts (Chapter.slug (getAllChapters courseParts ! 2)) =
             Some (getAllChapters courseParts ! Suc 2)"
    using adj[THEN conjunct1, rule_format, of 2] by (simp add: len)
  have b: "getPreviousChapter courseParts (Chapter.slug (getAllChapters courseParts ! 3)) =
             Some (getAllChapters courseParts ! (3 - 1))"
    using adj[THEN conjunct1, rule_format, of 3] by (simp add: len)
  have c: "getNextChapter courseParts (Chapter.slug (getAllChapters courseParts ! 16)) = None"
    using adj[THEN conjunct1, rule_format, of 16] by (simp add: len)
  have d: "getPreviousChapter courseParts (Chapter.slug (getAllChapters courseParts ! 0)) = None"
    using adj[THEN conjunct1, rule_format, of 0] by (simp add: len)
  have e: "getNextChapter courseParts ''does-not-exist'' = None \<and>
           getPreviousChapter courseParts ''does-not-exist'' = None"
    using adj[THEN conjunct2, rule_format, of "''does-not-exist''"]
    by (simp add: image_set slugs_courseParts)
  show ?thesis
    using a b c d e distinct_slugs_courseParts
    by (simp add: getAllChapters_courseParts chapter_defs mkChapter_def)
qed


text \<open>
  In a catalog whose slugs are pairwise distinct, next and previous undo each other:
  the successor of a chapter's predecessor, and the predecessor of its successor, is
  the chapter itself.
\<close>

theorem next_previous_inverse:
  assumes "distinct (map Chapter.slug (getAllChapters parts))"
  shows "(getPreviousChapter parts s = Some p \<longrightarrow>
            getNextChapter parts (Chapter.slug p) = getChapterBySlug parts s \<and>
            getChapterBySlug parts s \<noteq> None) \<and>
         (getNextChapter parts s = Some n \<longrightarrow>
            getPreviousChapter parts (Chapter.slug n) = getChapterBySlug parts s \<and>
            getChapterBySlug parts s \<noteq> None)"
proof (intro conjI impI)
  assume a: "getPreviousChapter parts s = Some p"
  then have "s \<in> Chapter.slug ` set (getAllChapters parts)"
    using getPreviousChapter_unknown[of s parts] by auto
  then obtain i where i: "i < length (getAllChapters parts)"
    and s: "s = Chapter.slug (getAllChapters parts ! i)"
    using slug_known_nth by blast
  from a have pi: "0 < i" "p = getAllChapters parts ! (i - 1)"
    unfolding s getPreviousChapter_nth[OF assms i] by (auto split: if_splits)
  have "i - 1 < length (getAllChapters parts)" using i by simp
  from getNextChapter_nth[OF assms this] pi i
  have "getNextChapter parts (Chapter.slug p) = Some (getAllChapters parts ! i)" by simp
  then show "getNextChapter parts (Chapter.slug p) = getChapterBySlug parts s"
    "getChapterBySlug parts s \<noteq> None"
    unfolding s getChapterBySlug_nth[OF assms i] by simp_all
next
  assume a: "getNextChapter parts s = Some n"
  then have "s \<in> Chapter.slug ` set (getAllChapters parts)"
    using getNextChapter_unknown[of s parts] by auto
  then obtain i where i: "i < length (getAllChapters parts)"
    and s: "s = Chapter.slug (getAllChapters parts ! i)"
    using slug_known_nth by blast
  from a have ni: "Suc i < length (getAllChapters parts)" "n = getAllChapters parts ! Suc i"
    unfolding s getNextChapter_nth[OF assms i] by (auto split: if_splits)
  from getPreviousChapter_nth[OF assms ni(1)] ni
  have "getPreviousChapter parts (Chapter.slug n) = Some (getAllChapters parts ! i)" by simp
  then show "getPreviousChapter parts (Chapter.slug n) = getChapterBySlug parts s"
    "getChapterBySlug parts s \<noteq> None"
    unfolding s getChapterBySlug_nth[OF assms i] by simp_all
qed


theorem next_previous_inverse_witness:
  "distinct (map Chapter.slug (getAllChapters courseParts)) \<and>
   getPreviousChapter courseParts ''props'' = Some ch05 \<and>
   getNextChapter courseParts (Chapter.slug ch05) = getChapterBySlug courseParts ''props'' \<and>
   getNextChapter courseParts ''props'' = Some ch07 \<and>
   getPreviousChapter courseParts (Chapter.slug ch07) = getChapterBySlug courseParts ''props''"
proof -
  have p: "getPreviousChapter courseParts ''props'' = Some ch05"
    by (simp add: getPreviousChapter_def getAllChapters_courseParts chapter_defs mkChapter_def
          Let_def)
  have n: "getNextChapter courseParts ''props'' = Some ch07"
    by (simp add: getNextChapter_def getAllChapters_courseParts chapter_defs mkChapter_def
          Let_def)
  note t = next_previous_inverse[OF distinct_slugs_courseParts, of "''props''" ch05 ch07]
  from t p have a: "getNextChapter courseParts (Chapter.slug ch05) =
                      getChapterBySlug courseParts ''props''" by blast
  from t n have b: "getPreviousChapter courseParts (Chapter.slug ch07) =
                      getChapterBySlug courseParts ''props''" by blast
  show ?thesis using distinct_slugs_courseParts p n a b by simp
qed

subsection \<open>The global order\<close>

text \<open>
  The order the specification describes, written from its words: all (part, chapter)
  memberships sorted by part number first and chapter number second.
\<close>

definition globalOrder_spec :: "CoursePart list \<Rightarrow> Chapter list" where
  "globalOrder_spec parts =
     map snd (sort_key (\<lambda>(p, c). (CoursePart.number p, Chapter.number c))
       (concat (map (\<lambda>p. map (Pair p) (CoursePart.chapters p)) parts)))"

lemma globalOrder_spec_courseParts: "globalOrder_spec courseParts = getAllChapters courseParts"
proof -
  let ?ps = "concat (map (\<lambda>p. map (Pair p) (CoursePart.chapters p)) courseParts)"
  let ?k = "\<lambda>(p, c). (CoursePart.number p, Chapter.number c)"
  have k: "map ?k ?ps =
     [(1, 1), (1, 2), (1, 3), (1, 4), (1, 5), (2, 6), (2, 7), (2, 8), (2, 9), (2, 10),
      (2, 11), (3, 12), (3, 13), (3, 14), (3, 15), (3, 16), (3, 17)]"
    by (simp add: courseParts_def part_defs chapter_defs mkChapter_def)
  have "sorted (map ?k ?ps)"
    unfolding k by (simp add: less_eq_prod_def)
  then have "sort_key ?k ?ps = ?ps"
    by (rule sort_key_id_if_sorted)
  then have "globalOrder_spec courseParts = map snd ?ps"
    by (simp add: globalOrder_spec_def)
  also have "\<dots> = getAllChapters courseParts"
    by (simp add: getAllChapters_def courseParts_def part_defs)
  finally show ?thesis .
qed

text \<open>
  Claim C8. On the shipped catalog \<open>getAllChapters\<close> returns the chapters in the order
  obtained by sorting on part number first and chapter number second; the result has
  no repetition, and its elements are exactly the chapters of the parts. The function
  is a function of the catalog alone: it reads no other state and writes none.
\<close>

theorem getAllChapters_global_order:
  "getAllChapters courseParts = globalOrder_spec courseParts \<and>
   distinct (getAllChapters courseParts) \<and>
   set (getAllChapters courseParts) = (\<Union>p \<in> set courseParts. set (CoursePart.chapters p)) \<and>
   length (getAllChapters courseParts) = 17"
proof (intro conjI)
  show "getAllChapters courseParts = globalOrder_spec courseParts"
    by (simp add: globalOrder_spec_courseParts)
  show "distinct (getAllChapters courseParts)"
    using distinct_slugs_courseParts by (rule distinct_map[THEN iffD1, THEN conjunct1])
  show "set (getAllChapters courseParts) = (\<Union>p \<in> set courseParts. set (CoursePart.chapters p))"
    by (simp add: getAllChapters_def)
  show "length (getAllChapters courseParts) = 17"
    by (simp add: getAllChapters_courseParts)
qed

section \<open>The chapter route (app/course/[part]/[slug]/page.tsx)\<close>

text \<open>\<open>Number.prototype.toString\<close> on an integer: its decimal digits.\<close>

fun decimal :: "nat \<Rightarrow> string" where
  "decimal n = (if n < 10 then [''0123456789'' ! n]
                else decimal (n div 10) @ [''0123456789'' ! (n mod 10)])"

declare decimal.simps [simp del]

definition Number_toString :: "int \<Rightarrow> string" where
  "Number_toString n = (if n < 0 then CHR ''-'' # decimal (nat (- n)) else decimal (nat n))"

record RouteParams =
  part :: string
  slug :: string

text \<open>The callback that \<open>generateStaticParams\<close> maps over the chapters.\<close>

definition staticParamsOf :: "Chapter \<Rightarrow> RouteParams" where
  "staticParamsOf chapter =
     (let partNumber = (if Chapter.number chapter \<le> 6 then 1
                        else if Chapter.number chapter \<le> 12 then 2 else (3::int))
      in \<lparr>part = ''part'' @ Number_toString partNumber, slug = Chapter.slug chapter\<rparr>)"

definition generateStaticParams :: "CoursePart list \<Rightarrow> RouteParams list" where
  "generateStaticParams parts = map staticParamsOf (getAllChapters parts)"

lemma Number_toString_small [simp]:
  "Number_toString 1 = ''1''" "Number_toString 2 = ''2''" "Number_toString 3 = ''3''"
  by (simp_all add: Number_toString_def decimal.simps)

lemma staticParamsOf_thresholds:
  "staticParamsOf c =
     \<lparr>part = (if Chapter.number c \<le> 6 then ''part1''
              else if Chapter.number c \<le> 12 then ''part2'' else ''part3''),
      slug = Chapter.slug c\<rparr>"
  by (simp add: staticParamsOf_def Let_def)

text \<open>
  Claim C10. The generated route of a chapter takes its part from the chapter's number:
  \<open>part1\<close> up to 6, \<open>part2\<close> up to 12, \<open>part3\<close> above. In the shipped catalog the
  generated part is the number of the part that contains the chapter for every chapter
  but two: \<open>ch06\<close> (number 6, a chapter of part 2) is generated under \<open>part1\<close>, and
  \<open>ch12\<close> (number 12, a chapter of part 3) under \<open>part2\<close>.
\<close>

theorem generateStaticParams_thresholds:
  "generateStaticParams parts =
     map (\<lambda>c. \<lparr>part = (if Chapter.number c \<le> 6 then ''part1''
                       else if Chapter.number c \<le> 12 then ''part2'' else ''part3''),
               slug = Chapter.slug c\<rparr>) (getAllChapters parts) \<and>
   (\<forall>p \<in> set courseParts. \<forall>c \<in> set (CoursePart.chapters p).
      (part (staticParamsOf c) = ''part'' @ Number_toString (CoursePart.number p)) =
      (c \<noteq> ch06 \<and> c \<noteq> ch12)) \<and>
   Chapter.number ch06 = 6 \<and> ch06 \<in> set (CoursePart.chapters part2) \<and>
   part (staticParamsOf ch06) = ''part1'' \<and>
   Chapter.number ch12 = 12 \<and> ch12 \<in> set (CoursePart.chapters part3) \<and>
   part (staticParamsOf ch12) = ''part2''"
proof (intro conjI)
  show "generateStaticParams parts =
     map (\<lambda>c. \<lparr>part = (if Chapter.number c \<le> 6 then ''part1''
                       else if Chapter.number c \<le> 12 then ''part2'' else ''part3''),
               slug = Chapter.slug c\<rparr>) (getAllChapters parts)"
    by (simp add: generateStaticParams_def staticParamsOf_thresholds)
  show "\<forall>p \<in> set courseParts. \<forall>c \<in> set (CoursePart.chapters p).
      (part (staticParamsOf c) = ''part'' @ Number_toString (CoursePart.number p)) =
      (c \<noteq> ch06 \<and> c \<noteq> ch12)"
    by (simp add: courseParts_def part_defs staticParamsOf_thresholds chapter_defs mkChapter_def)
qed (simp_all add: part_defs staticParamsOf_thresholds chapter_defs mkChapter_def)

theorem generateStaticParams_thresholds_witness:
  "part2 \<in> set courseParts \<and> ch07 \<in> set (CoursePart.chapters part2) \<and>
   part (staticParamsOf ch07) = ''part2'' \<and> CoursePart.number part2 = 2 \<and>
   ch06 \<in> set (CoursePart.chapters part2) \<and> part (staticParamsOf ch06) \<noteq> ''part2'' \<and>
   part3 \<in> set courseParts \<and> ch12 \<in> set (CoursePart.chapters part3) \<and>
   part (staticParamsOf ch12) \<noteq> ''part3''"
proof -
  have p2: "part2 \<in> set courseParts" and p3: "part3 \<in> set courseParts"
    by (simp_all add: courseParts_def)
  have c7: "ch07 \<in> set (CoursePart.chapters part2)"
    and c6: "ch06 \<in> set (CoursePart.chapters part2)"
    and c12: "ch12 \<in> set (CoursePart.chapters part3)"
    by (simp_all add: part_defs)
  note all = generateStaticParams_thresholds[of courseParts, THEN conjunct2, THEN conjunct1]
  have n2: "CoursePart.number part2 = 2" and n3: "CoursePart.number part3 = 3"
    by (simp_all add: part_defs)
  have ne: "ch07 \<noteq> ch06" "ch07 \<noteq> ch12"
    by (simp_all add: chapter_defs mkChapter_def)
  have a: "part (staticParamsOf ch07) = ''part2''"
    using all[THEN bspec, OF p2, THEN bspec, OF c7] ne by (simp add: n2)
  have b: "part (staticParamsOf ch06) \<noteq> ''part2''"
    using all[THEN bspec, OF p2, THEN bspec, OF c6] by (simp add: n2)
  have c: "part (staticParamsOf ch12) \<noteq> ''part3''"
    using all[THEN bspec, OF p3, THEN bspec, OF c12] by (simp add: n3)
  show ?thesis using p2 p3 c7 c6 c12 a b c n2 by simp
qed


section \<open>Links and generated routes\<close>

text \<open>
  The application is exported statically, so the chapter pages that exist are the
  routes of \<open>generateStaticParams\<close>. The sidebar and the course overview link to a
  chapter by the number of its part; the chapter view links to the previous and the
  next chapter by the thresholds on the chapter's number.
\<close>

definition routePath :: "RouteParams \<Rightarrow> string" where
  "routePath params = ''/course/'' @ part params @ ''/'' @ RouteParams.slug params"

definition chapterHref :: "CoursePart \<Rightarrow> Chapter \<Rightarrow> string" where
  "chapterHref p chapter =
     ''/course/part'' @ Number_toString (CoursePart.number p) @ ''/'' @ Chapter.slug chapter"

definition neighbourHref :: "Chapter \<Rightarrow> string" where
  "neighbourHref chapter =
     ''/course/part'' @
     Number_toString (if Chapter.number chapter \<le> 6 then 1
                      else if Chapter.number chapter \<le> 12 then 2 else 3) @
     ''/'' @ Chapter.slug chapter"

lemma neighbourHref_routePath: "neighbourHref c = routePath (staticParamsOf c)"
  by (simp add: neighbourHref_def routePath_def staticParamsOf_def Let_def)

lemma getNextChapter_mem:
  "getNextChapter parts s = Some c \<Longrightarrow> c \<in> set (getAllChapters parts)"
  by (auto simp: getNextChapter_def Let_def split: if_splits)

lemma findIndex_less: "findIndex P xs < int (length xs)"
  by (induction xs) (auto simp: Let_def)

lemma getPreviousChapter_mem:
  assumes "getPreviousChapter parts s = Some c"
  shows "c \<in> set (getAllChapters parts)"
proof -
  let ?i = "findIndex (\<lambda>ch. Chapter.slug ch = s) (getAllChapters parts)"
  from assms have i: "0 < ?i" and c: "c = getAllChapters parts ! nat (?i - 1)"
    by (auto simp: getPreviousChapter_def Let_def split: if_splits)
  have "?i < int (length (getAllChapters parts))" by (rule findIndex_less)
  then have "nat (?i - 1) < length (getAllChapters parts)" using i by simp
  then show ?thesis unfolding c by (rule nth_mem)
qed

text \<open>
  The links of the chapter view to the previous and the next chapter always name a
  generated route, in every catalog: they use the thresholds that
  \<open>generateStaticParams\<close> uses.
\<close>

theorem neighbour_links_are_generated:
  "(getNextChapter parts s = Some c \<longrightarrow>
      neighbourHref c \<in> routePath ` set (generateStaticParams parts)) \<and>
   (getPreviousChapter parts s = Some c \<longrightarrow>
      neighbourHref c \<in> routePath ` set (generateStaticParams parts))"
  by (auto simp: neighbourHref_routePath generateStaticParams_def
      dest!: getNextChapter_mem getPreviousChapter_mem)

theorem neighbour_links_are_generated_witness:
  "getNextChapter courseParts ''handling-user-interaction'' = Some ch06 \<and>
   neighbourHref ch06 = ''/course/part1/props'' \<and>
   neighbourHref ch06 \<in> routePath ` set (generateStaticParams courseParts)"
proof -
  have n: "getNextChapter courseParts ''handling-user-interaction'' = Some ch06"
    by (simp add: getNextChapter_def getAllChapters_courseParts chapter_defs mkChapter_def
          Let_def)
  have h: "neighbourHref ch06 = ''/course/part1/props''"
    by (simp add: neighbourHref_def ch06_def mkChapter_def)
  from neighbour_links_are_generated[of courseParts "''handling-user-interaction''" ch06] n
  have "neighbourHref ch06 \<in> routePath ` set (generateStaticParams courseParts)" by blast
  with n h show ?thesis by simp
qed

lemma routePaths_courseParts:
  "map routePath (generateStaticParams courseParts) =
     [''/course/part1/what-is-react-native'', ''/course/part1/environment-setup'',
      ''/course/part1/understanding-components'', ''/course/part1/styling-your-app'',
      ''/course/part1/handling-user-interaction'', ''/course/part1/props'',
      ''/course/part2/state'', ''/course/part2/lists-and-keys'', ''/course/part2/use-effect'',
      ''/course/part2/navigation'', ''/course/part2/context-api'',
      ''/course/part2/architecture-patterns'', ''/course/part3/advanced-state-management'',
      ''/course/part3/async-operations'', ''/course/part3/native-modules'',
      ''/course/part3/testing'', ''/course/part3/performance-production'']"
  by (simp add: generateStaticParams_def getAllChapters_courseParts staticParamsOf_thresholds
        routePath_def chapter_defs mkChapter_def)

text \<open>
  The links of the sidebar and of the course overview, which use the number of the
  chapter's part, name a generated route for every chapter of the shipped catalog but
  \<open>ch06\<close> and \<open>ch12\<close>: their pages are generated under the part before.
\<close>

theorem part_links_generated_except_two:
  "\<forall>p \<in> set courseParts. \<forall>c \<in> set (CoursePart.chapters p).
     (chapterHref p c \<in> set (map routePath (generateStaticParams courseParts))) =
     (c \<noteq> ch06 \<and> c \<noteq> ch12)"
  unfolding routePaths_courseParts
  by (simp add: courseParts_def part_defs chapterHref_def chapter_defs mkChapter_def)

theorem part_links_generated_except_two_witness:
  "part2 \<in> set courseParts \<and> ch06 \<in> set (CoursePart.chapters part2) \<and>
   chapterHref part2 ch06 = ''/course/part2/props'' \<and>
   chapterHref part2 ch06 \<notin> set (map routePath (generateStaticParams courseParts)) \<and>
   ch07 \<in> set (CoursePart.chapters part2) \<and>
   chapterHref part2 ch07 \<in> set (map routePath (generateStaticParams courseParts))"
proof -
  have p2: "part2 \<in> set courseParts" by (simp add: courseParts_def)
  have c6: "ch06 \<in> set (CoursePart.chapters part2)"
    and c7: "ch07 \<in> set (CoursePart.chapters part2)"
    by (simp_all add: part_defs)
  have h: "chapterHref part2 ch06 = ''/course/part2/props''"
    by (simp add: chapterHref_def part2_def ch06_def mkChapter_def)
  have ne: "ch07 \<noteq> ch06" "ch07 \<noteq> ch12" by (simp_all add: chapter_defs mkChapter_def)
  note t = part_links_generated_except_two[THEN bspec, OF p2]
  have a: "chapterHref part2 ch06 \<notin> set (map routePath (generateStaticParams courseParts))"
    using t[THEN bspec, OF c6] by simp
  have b: "chapterHref part2 ch07 \<in> set (map routePath (generateStaticParams courseParts))"
    using t[THEN bspec, OF c7] ne by simp
  show ?thesis using p2 c6 c7 h a b by simp
qed


section \<open>The browser runtime: JSON, Set and localStorage\<close>

text \<open>
  The components call \<open>JSON.parse\<close>, \<open>JSON.stringify\<close>, the \<open>Set\<close> constructor and
  \<open>localStorage\<close>. This section models them as far as the components use them. A text
  is a list of bytes holding UTF-8, and a JSON value is a value of the datatype below.
  Three things are simpler here than in a browser, and no statement of this theory
  depends on them: a number is kept as its literal, so that \<open>JSON.stringify\<close> prints the
  literal back and two literals of one number are two elements of a \<open>Set\<close>; the members
  of an object are the list the text has them in; a code unit escaped as \<open>\uXXXX\<close> is
  stored as its UTF-8 bytes, a surrogate pair as two groups of three.
\<close>

datatype json =
    JNull
  | JBool bool
  | JNumber string
  | JString string
  | JArray "json list"
  | JObject "(string \<times> json) list"

datatype js_error = SyntaxError | TypeError

subsection \<open>\<open>JSON.parse\<close>\<close>

definition is_ws :: "char \<Rightarrow> bool" where
  "is_ws c = (c = CHR '' '' \<or> c = CHR 0x09 \<or> c = CHR 0x0A \<or> c = CHR 0x0D)"

definition skip_ws :: "string \<Rightarrow> string" where
  "skip_ws cs = dropWhile is_ws cs"

definition is_digit :: "char \<Rightarrow> bool" where
  "is_digit c = (c \<in> set ''0123456789'')"

definition hex_value :: "char \<Rightarrow> nat option" where
  "hex_value c =
     map_of [(CHR ''0'', 0), (CHR ''1'', 1), (CHR ''2'', 2), (CHR ''3'', 3), (CHR ''4'', 4),
             (CHR ''5'', 5), (CHR ''6'', 6), (CHR ''7'', 7), (CHR ''8'', 8), (CHR ''9'', 9),
             (CHR ''a'', 10), (CHR ''b'', 11), (CHR ''c'', 12), (CHR ''d'', 13),
             (CHR ''e'', 14), (CHR ''f'', 15),
             (CHR ''A'', 10), (CHR ''B'', 11), (CHR ''C'', 12), (CHR ''D'', 13),
             (CHR ''E'', 14), (CHR ''F'', 15)] c"

definition hex4 :: "char \<Rightarrow> char \<Rightarrow> char \<Rightarrow> char \<Rightarrow> nat option" where
  "hex4 a b c d =
     (case (hex_value a, hex_value b, hex_value c, hex_value d) of
        (Some h3, Some h2, Some h1, Some h0) \<Rightarrow> Some (((h3 * 16 + h2) * 16 + h1) * 16 + h0)
      | _ \<Rightarrow> None)"

text \<open>A code unit written \<open>\uXXXX\<close>, as the bytes of its UTF-8 form.\<close>

definition utf8 :: "nat \<Rightarrow> string" where
  "utf8 n =
     (if n < 0x80 then [char_of n]
      else if n < 0x800 then [char_of (0xC0 + n div 64), char_of (0x80 + n mod 64)]
      else [char_of (0xE0 + n div 4096), char_of (0x80 + (n div 64) mod 64),
            char_of (0x80 + n mod 64)])"

definition unescape :: "char \<Rightarrow> char option" where
  "unescape e =
     map_of [(CHR 0x22, CHR 0x22), (CHR 0x5C, CHR 0x5C), (CHR ''/'', CHR ''/''),
             (CHR ''b'', CHR 0x08), (CHR ''f'', CHR 0x0C), (CHR ''n'', CHR 0x0A),
             (CHR ''r'', CHR 0x0D), (CHR ''t'', CHR 0x09)] e"

text \<open>The characters of a string literal after its opening quote, up to and with the
  closing quote: the decoded string and the rest of the input.\<close>

fun parse_chars :: "string \<Rightarrow> (string \<times> string) option" where
  "parse_chars [] = None"
| "parse_chars (c # cs) =
     (if c = CHR 0x22 then Some ([], cs)
      else if c = CHR 0x5C then
        (case cs of
           [] \<Rightarrow> None
         | e # cs1 \<Rightarrow>
             if e = CHR ''u'' then
               (case cs1 of
                  h3 # h2 # h1 # h0 # cs2 \<Rightarrow>
                    (case hex4 h3 h2 h1 h0 of
                       None \<Rightarrow> None
                     | Some n \<Rightarrow> map_option (\<lambda>(s, r). (utf8 n @ s, r)) (parse_chars cs2))
                | _ \<Rightarrow> None)
             else
               (case unescape e of
                  None \<Rightarrow> None
                | Some d \<Rightarrow> map_option (\<lambda>(s, r). (d # s, r)) (parse_chars cs1)))
      else if (of_char c :: nat) < 0x20 then None
      else map_option (\<lambda>(s, r). (c # s, r)) (parse_chars cs))"

text \<open>A number literal: \<open>-? (0 | [1-9][0-9]*) (. [0-9]+)? ([eE] [+-]? [0-9]+)?\<close>.
  The literal itself is kept.\<close>

definition lex_int :: "string \<Rightarrow> (string \<times> string) option" where
  "lex_int cs =
     (case cs of
        [] \<Rightarrow> None
      | c # cs1 \<Rightarrow>
          if c = CHR ''0'' then Some ([c], cs1)
          else if is_digit c then Some (c # takeWhile is_digit cs1, dropWhile is_digit cs1)
          else None)"

definition lex_frac :: "string \<Rightarrow> (string \<times> string) option" where
  "lex_frac cs =
     (case cs of
        c # d # cs1 \<Rightarrow>
          if c = CHR ''.'' then
            (if is_digit d
             then Some (c # d # takeWhile is_digit cs1, dropWhile is_digit cs1)
             else None)
          else Some ([], cs)
      | [c] \<Rightarrow> if c = CHR ''.'' then None else Some ([], cs)
      | [] \<Rightarrow> Some ([], cs))"

definition lex_exp :: "string \<Rightarrow> (string \<times> string) option" where
  "lex_exp cs =
     (case cs of
        [] \<Rightarrow> Some ([], cs)
      | c # cs1 \<Rightarrow>
          if c = CHR ''e'' \<or> c = CHR ''E'' then
            (let sign = (case cs1 of
                           [] \<Rightarrow> []
                         | s # _ \<Rightarrow> if s = CHR ''+'' \<or> s = CHR ''-'' then [s] else []);
                 cs2 = drop (length sign) cs1
             in if cs2 \<noteq> [] \<and> is_digit (hd cs2)
                then Some (c # sign @ takeWhile is_digit cs2, dropWhile is_digit cs2)
                else None)
          else Some ([], cs))"

definition lex_number :: "string \<Rightarrow> (string \<times> string) option" where
  "lex_number cs =
     (let (sign, cs0) = (case cs of
                           [] \<Rightarrow> ([], cs)
                         | c # cs' \<Rightarrow> if c = CHR ''-'' then ([c], cs') else ([], cs))
      in case lex_int cs0 of
           None \<Rightarrow> None
         | Some (i, cs1) \<Rightarrow>
             (case lex_frac cs1 of
                None \<Rightarrow> None
              | Some (f, cs2) \<Rightarrow>
                  (case lex_exp cs2 of
                     None \<Rightarrow> None
                   | Some (e, cs3) \<Rightarrow> Some (sign @ i @ f @ e, cs3))))"

definition lex_word :: "string \<Rightarrow> json \<Rightarrow> string \<Rightarrow> (json \<times> string) option" where
  "lex_word w v cs = (if take (length w) cs = w then Some (v, drop (length w) cs) else None)"

text \<open>
  Values, array elements and object members, by recursive descent. The first argument
  bounds the recursion: it decreases only where a bracket or a comma has been read, so
  one more than the length of the text is always enough.
\<close>

fun parse_value :: "nat \<Rightarrow> string \<Rightarrow> (json \<times> string) option"
  and parse_elements :: "nat \<Rightarrow> string \<Rightarrow> (json list \<times> string) option"
  and parse_members :: "nat \<Rightarrow> string \<Rightarrow> ((string \<times> json) list \<times> string) option"
where
  "parse_value 0 cs = None"
| "parse_value (Suc n) cs =
     (case skip_ws cs of
        [] \<Rightarrow> None
      | c # cs1 \<Rightarrow>
          if c = CHR 0x22 then map_option (\<lambda>(s, r). (JString s, r)) (parse_chars cs1)
          else if c = CHR ''['' then
            (case skip_ws cs1 of
               [] \<Rightarrow> None
             | d # cs2 \<Rightarrow>
                 if d = CHR '']'' then Some (JArray [], cs2)
                 else map_option (\<lambda>(vs, r). (JArray vs, r)) (parse_elements n cs1))
          else if c = CHR ''{'' then
            (case skip_ws cs1 of
               [] \<Rightarrow> None
             | d # cs2 \<Rightarrow>
                 if d = CHR ''}'' then Some (JObject [], cs2)
                 else map_option (\<lambda>(ms, r). (JObject ms, r)) (parse_members n cs1))
          else if c = CHR ''n'' then lex_word ''null'' JNull (c # cs1)
          else if c = CHR ''t'' then lex_word ''true'' (JBool True) (c # cs1)
          else if c = CHR ''f'' then lex_word ''false'' (JBool False) (c # cs1)
          else map_option (\<lambda>(l, r). (JNumber l, r)) (lex_number (c # cs1)))"
| "parse_elements 0 cs = None"
| "parse_elements (Suc n) cs =
     (case parse_value (Suc n) cs of
        None \<Rightarrow> None
      | Some (v, r) \<Rightarrow>
          (case skip_ws r of
             [] \<Rightarrow> None
           | c # r1 \<Rightarrow>
               if c = CHR '','' then map_option (\<lambda>(vs, r2). (v # vs, r2)) (parse_elements n r1)
               else if c = CHR '']'' then Some ([v], r1)
               else None))"
| "parse_members 0 cs = None"
| "parse_members (Suc n) cs =
     (case skip_ws cs of
        [] \<Rightarrow> None
      | q # cs1 \<Rightarrow>
          if q \<noteq> CHR 0x22 then None
          else
            (case parse_chars cs1 of
               None \<Rightarrow> None
             | Some (k, cs2) \<Rightarrow>
                 (case skip_ws cs2 of
                    [] \<Rightarrow> None
                  | c # cs3 \<Rightarrow>
                      if c \<noteq> CHR '':'' then None
                      else
                        (case parse_value (Suc n) cs3 of
                           None \<Rightarrow> None
                         | Some (v, r) \<Rightarrow>
                             (case skip_ws r of
                                [] \<Rightarrow> None
                              | e # r1 \<Rightarrow>
                                  if e = CHR '','' then
                                    map_option (\<lambda>(ms, r2). ((k, v) # ms, r2))
                                      (parse_members n r1)
                                  else if e = CHR ''}'' then Some ([(k, v)], r1)
                                  else None)))))"

definition JSON_parse :: "string \<Rightarrow> js_error + json" where
  "JSON_parse text =
     (case parse_value (Suc (length text)) text of
        None \<Rightarrow> Inl SyntaxError
      | Some (v, r) \<Rightarrow> if skip_ws r = [] then Inr v else Inl SyntaxError)"

subsection \<open>\<open>JSON.stringify\<close>\<close>

definition hex_digit :: "nat \<Rightarrow> char" where
  "hex_digit n = ''0123456789abcdef'' ! n"

definition escape_char :: "char \<Rightarrow> string" where
  "escape_char c =
     (if c = CHR 0x22 then [CHR 0x5C, CHR 0x22]
      else if c = CHR 0x5C then [CHR 0x5C, CHR 0x5C]
      else if c = CHR 0x08 then [CHR 0x5C, CHR ''b'']
      else if c = CHR 0x0C then [CHR 0x5C, CHR ''f'']
      else if c = CHR 0x0A then [CHR 0x5C, CHR ''n'']
      else if c = CHR 0x0D then [CHR 0x5C, CHR ''r'']
      else if c = CHR 0x09 then [CHR 0x5C, CHR ''t'']
      else if (of_char c :: nat) < 0x20 then
        [CHR 0x5C, CHR ''u'', CHR ''0'', CHR ''0'',
         hex_digit (of_char c div 16), hex_digit (of_char c mod 16)]
      else [c])"

definition quote :: "string \<Rightarrow> string" where
  "quote s = CHR 0x22 # concat (map escape_char s) @ [CHR 0x22]"

fun join :: "string list \<Rightarrow> string" where
  "join [] = []"
| "join [x] = x"
| "join (x # y # ys) = x @ CHR '','' # join (y # ys)"

fun JSON_stringify :: "json \<Rightarrow> string"
  and stringify_members :: "(string \<times> json) list \<Rightarrow> string list"
where
  "JSON_stringify JNull = ''null''"
| "JSON_stringify (JBool b) = (if b then ''true'' else ''false'')"
| "JSON_stringify (JNumber l) = l"
| "JSON_stringify (JString s) = quote s"
| "JSON_stringify (JArray vs) = CHR ''['' # join (map JSON_stringify vs) @ '']''"
| "JSON_stringify (JObject ms) = CHR ''{'' # join (stringify_members ms) @ ''}''"
| "stringify_members [] = []"
| "stringify_members ((k, v) # ms) =
     (quote k @ CHR '':'' # JSON_stringify v) # stringify_members ms"

subsection \<open>\<open>Set\<close>\<close>

text \<open>
  A \<open>Set\<close> is the list of its elements in insertion order. Membership is SameValueZero:
  primitives compare by value, and the arrays and objects of one parsed text are
  distinct objects, equal to nothing else.
\<close>

type_synonym jsset = "json list"

fun sameValueZero :: "json \<Rightarrow> json \<Rightarrow> bool" where
  "sameValueZero JNull JNull = True"
| "sameValueZero (JBool a) (JBool b) = (a = b)"
| "sameValueZero (JNumber a) (JNumber b) = (a = b)"
| "sameValueZero (JString a) (JString b) = (a = b)"
| "sameValueZero _ _ = False"

definition Set_has :: "jsset \<Rightarrow> json \<Rightarrow> bool" where
  "Set_has S x = list_ex (\<lambda>y. sameValueZero y x) S"

definition Set_add :: "jsset \<Rightarrow> json \<Rightarrow> jsset" where
  "Set_add S x = (if Set_has S x then S else S @ [x])"

definition Set_delete :: "jsset \<Rightarrow> json \<Rightarrow> jsset" where
  "Set_delete S x = filter (\<lambda>y. \<not> sameValueZero y x) S"

definition is_continuation :: "char \<Rightarrow> bool" where
  "is_continuation c = (0x80 \<le> (of_char c :: nat) \<and> (of_char c :: nat) < 0xC0)"

text \<open>The iteration of a string: one element per code point, a code point being a
  byte with the continuation bytes that follow it.\<close>

function code_points :: "string \<Rightarrow> string list" where
  "code_points [] = []"
| "code_points (c # cs) =
     (c # takeWhile is_continuation cs) # code_points (dropWhile is_continuation cs)"
  by pat_completeness auto
termination
  by (relation "measure length") (auto simp: less_Suc_eq_le length_dropWhile_le)

text \<open>\<open>new Set(v)\<close> for a parsed value \<open>v\<close>: \<open>null\<close> gives the empty set, an array and
  a string are iterated, anything else is not iterable.\<close>

definition new_Set :: "json \<Rightarrow> js_error + jsset" where
  "new_Set v =
     (case v of
        JNull \<Rightarrow> Inr []
      | JArray vs \<Rightarrow> Inr (fold (\<lambda>x S. Set_add S x) vs [])
      | JString s \<Rightarrow> Inr (fold (\<lambda>x S. Set_add S x) (map JString (code_points s)) [])
      | _ \<Rightarrow> Inl TypeError)"

subsection \<open>\<open>localStorage\<close>\<close>

type_synonym storage = "string \<rightharpoonup> string"

definition getItem :: "storage \<Rightarrow> string \<Rightarrow> string option" where
  "getItem st k = st k"

definition setItem :: "storage \<Rightarrow> string \<Rightarrow> string \<Rightarrow> storage" where
  "setItem st k v = st(k \<mapsto> v)"

lemma setItem_setItem [simp]: "setItem (setItem st k a) k b = setItem st k b"
  by (simp add: setItem_def)

lemma getItem_setItem [simp]: "getItem (setItem st k a) k = Some a"
  by (simp add: getItem_def setItem_def)

subsection \<open>Reading back what \<open>JSON.stringify\<close> wrote\<close>

lemma hex_value_hex_digit: "k < 16 \<Longrightarrow> hex_value (hex_digit k) = Some k"
proof -
  assume "k < 16"
  then have "k \<in> set [0..<16]" by simp
  moreover have "\<forall>k \<in> set [0..<16]. hex_value (hex_digit k) = Some k"
    by code_simp
  ultimately show ?thesis by blast
qed

lemma hex4_hex_digit:
  assumes "n < 256"
  shows "hex4 (CHR ''0'') (CHR ''0'') (hex_digit (n div 16)) (hex_digit (n mod 16)) = Some n"
proof -
  have "n div 16 < 16" using assms by simp
  then have a: "hex_value (hex_digit (n div 16)) = Some (n div 16)"
    by (rule hex_value_hex_digit)
  have b: "hex_value (hex_digit (n mod 16)) = Some (n mod 16)"
    by (rule hex_value_hex_digit) simp
  have z: "hex_value (CHR ''0'') = Some 0" by (simp add: hex_value_def)
  show ?thesis by (simp add: hex4_def a b z)
qed

lemma parse_chars_escape_char:
  "parse_chars (escape_char c @ cs) = map_option (\<lambda>(s, r). (c # s, r)) (parse_chars cs)"
proof -
  consider (special) "c \<in> {CHR 0x22, CHR 0x5C, CHR 0x08, CHR 0x0C, CHR 0x0A, CHR 0x0D, CHR 0x09}"
    | (control) "c \<notin> {CHR 0x22, CHR 0x5C, CHR 0x08, CHR 0x0C, CHR 0x0A, CHR 0x0D, CHR 0x09}"
        "(of_char c :: nat) < 0x20"
    | (plain) "c \<noteq> CHR 0x22" "c \<noteq> CHR 0x5C" "\<not> (of_char c :: nat) < 0x20"
    by auto
  then show ?thesis
  proof cases
    case special
    then show ?thesis
      by (auto simp: escape_char_def unescape_def)
  next
    case control
    have n: "(of_char c :: nat) < 256" using control(2) by simp
    have u: "utf8 (of_char c) = [c]" using control(2) by (simp add: utf8_def)
    from control(1) have e: "escape_char c =
        [CHR 0x5C, CHR ''u'', CHR ''0'', CHR ''0'',
         hex_digit (of_char c div 16), hex_digit (of_char c mod 16)]"
      using control(2) by (simp add: escape_char_def)
    show ?thesis
      by (simp add: e hex4_hex_digit[OF n] u)
  next
    case plain
    then show ?thesis by (auto simp: escape_char_def)
  qed
qed

lemma parse_chars_escaped:
  "parse_chars (concat (map escape_char s) @ CHR 0x22 # rest) = Some (s, rest)"
  by (induction s) (simp_all add: parse_chars_escape_char del: parse_chars.simps(2), simp)


lemma skip_ws_quote [simp]: "skip_ws (CHR 0x22 # cs) = CHR 0x22 # cs"
  by (simp add: skip_ws_def is_ws_def)

lemma skip_ws_comma [simp]: "skip_ws (CHR '','' # cs) = CHR '','' # cs"
  by (simp add: skip_ws_def is_ws_def)

lemma skip_ws_close [simp]: "skip_ws (CHR '']'' # cs) = CHR '']'' # cs"
  by (simp add: skip_ws_def is_ws_def)

lemma skip_ws_open [simp]: "skip_ws (CHR ''['' # cs) = CHR ''['' # cs"
  by (simp add: skip_ws_def is_ws_def)

lemma skip_ws_Nil [simp]: "skip_ws [] = []"
  by (simp add: skip_ws_def)

lemma parse_value_quote:
  "parse_value (Suc n) (quote s @ rest) = Some (JString s, rest)"
  by (simp add: quote_def parse_chars_escaped)

lemma skip_ws_quoted [simp]: "skip_ws (quote s @ rest) = quote s @ rest"
  by (simp add: quote_def)

lemma parse_elements_strings:
  "ids \<noteq> [] \<Longrightarrow> length ids \<le> n \<Longrightarrow>
   parse_elements n (join (map quote ids) @ CHR '']'' # rest) = Some (map JString ids, rest)"
proof (induction ids arbitrary: n)
  case Nil
  then show ?case by simp
next
  case (Cons i ids)
  then obtain m where n: "n = Suc m" by (cases n) auto
  show ?case
  proof (cases ids)
    case Nil
    then show ?thesis
      using parse_value_quote[of m i "CHR '']'' # rest"] by (simp add: n)
  next
    case (Cons j js)
    have "parse_elements m (join (map quote ids) @ CHR '']'' # rest) = Some (map JString ids, rest)"
      using Cons.IH[of m] Cons.prems Cons n by simp
    then show ?thesis
      using parse_value_quote[of m i "CHR '','' # join (map quote ids) @ CHR '']'' # rest"] Cons
      by (simp add: n)
  qed
qed

lemma length_join_quote: "length ids \<le> length (join (map quote ids))"
  by (induction ids rule: induct_list012) (simp_all add: quote_def)

lemma JSON_parse_stringify_strings:
  "JSON_parse (JSON_stringify (JArray (map JString ids))) = Inr (JArray (map JString ids))"
proof (cases ids)
  case Nil
  then show ?thesis by (simp add: JSON_parse_def)
next
  case (Cons i js)
  define t where "t = join (map quote ids)"
  define doc where "doc = JSON_stringify (JArray (map JString ids))"
  have doc: "doc = CHR ''['' # t @ '']''"
    by (simp add: doc_def t_def comp_def)
  have e: "parse_elements (Suc (Suc (length t))) (t @ CHR '']'' # []) =
             Some (map JString ids, [])"
    unfolding t_def using Cons length_join_quote[of ids]
    by (intro parse_elements_strings) auto
  obtain r where t: "t = CHR 0x22 # r"
    unfolding t_def using Cons by (cases js) (simp_all add: quote_def)
  have len: "length doc = Suc (Suc (length t))"
    by (simp add: doc)
  have "parse_value (Suc (Suc (Suc (length t)))) (CHR ''['' # CHR 0x22 # r @ '']'') =
          Some (JArray (map JString ids), [])"
    using e unfolding t by (simp del: parse_elements.simps)
  then have "parse_value (Suc (length doc)) doc = Some (JArray (map JString ids), [])"
    unfolding len unfolding doc t by simp
  then show ?thesis
    unfolding JSON_parse_def doc_def[symmetric] by simp
qed


subsection \<open>The bound on the recursion is never reached\<close>

lemma length_skip_ws: "length (skip_ws cs) \<le> length cs"
  by (simp add: skip_ws_def length_dropWhile_le)

lemma skip_ws_Cons_length: "skip_ws cs = c # r \<Longrightarrow> length r < length cs"
  using length_skip_ws[of cs] by simp

lemma parse_chars_length: "parse_chars cs = Some (s, r) \<Longrightarrow> length r < length cs"
proof (induction "length cs" arbitrary: cs s r rule: less_induct)
  case less
  note IH = less.hyps
  from less.prems obtain c cs0 where cs: "cs = c # cs0" by (cases cs) auto
  show ?case
  proof (cases "c = CHR 0x22")
    case True
    with less.prems cs show ?thesis by simp
  next
    case q: False
    show ?thesis
    proof (cases "c = CHR 0x5C")
      case True
      from less.prems cs q True obtain e cs1 where cs0: "cs0 = e # cs1"
        by (cases cs0) auto
      show ?thesis
      proof (cases "e = CHR ''u''")
        case u: True
        from less.prems cs q True cs0 u obtain h3 h2 h1 h0 cs2 s' where
          cs1: "cs1 = h3 # h2 # h1 # h0 # cs2" and p: "parse_chars cs2 = Some (s', r)"
          by (auto split: list.splits option.splits)
        have "length r < length cs2"
          using IH[OF _ p] cs cs0 cs1 by simp
        then show ?thesis using cs cs0 cs1 by simp
      next
        case nu: False
        from less.prems cs q True cs0 nu obtain s' where
          p: "parse_chars cs1 = Some (s', r)"
          by (auto split: option.splits)
        have "length r < length cs1"
          using IH[OF _ p] cs cs0 by simp
        then show ?thesis using cs cs0 by simp
      qed
    next
      case b: False
      from less.prems cs q b obtain s' where p: "parse_chars cs0 = Some (s', r)"
        by (auto split: if_splits)
      have "length r < length cs0" using IH[OF _ p] cs by simp
      then show ?thesis using cs by simp
    qed
  qed
qed

lemma lex_word_length: "lex_word w v cs = Some (x, r) \<Longrightarrow> w \<noteq> [] \<Longrightarrow> length r < length cs"
  by (cases cs) (auto simp: lex_word_def split: if_splits)

lemma lex_int_length: "lex_int cs = Some (l, r) \<Longrightarrow> length r < length cs"
  by (auto simp: lex_int_def less_Suc_eq_le length_dropWhile_le split: list.splits if_splits)

lemma lex_frac_length: "lex_frac cs = Some (l, r) \<Longrightarrow> length r \<le> length cs"
  by (auto simp: lex_frac_def intro: le_SucI length_dropWhile_le
      split: list.splits if_splits)

lemma lex_exp_length: "lex_exp cs = Some (l, r) \<Longrightarrow> length r \<le> length cs"
proof (cases cs)
  case Nil
  assume "lex_exp cs = Some (l, r)"
  with Nil show ?thesis by (simp add: lex_exp_def)
next
  case (Cons c cs1)
  assume a: "lex_exp cs = Some (l, r)"
  show ?thesis
  proof (cases "c = CHR ''e'' \<or> c = CHR ''E''")
    case True
    with a Cons obtain k where "r = dropWhile is_digit (drop k cs1)"
      by (auto simp: lex_exp_def Let_def split: if_splits)
    then have "length r \<le> length (drop k cs1)"
      using length_dropWhile_le[of is_digit "drop k cs1"] by (simp del: length_drop)
    then show ?thesis using Cons by simp
  next
    case False
    with a Cons show ?thesis by (simp add: lex_exp_def)
  qed
qed

lemma lex_number_length: "lex_number cs = Some (l, r) \<Longrightarrow> length r < length cs"
proof -
  assume a: "lex_number cs = Some (l, r)"
  obtain sg cs0 where s: "(case cs of [] \<Rightarrow> ([], cs)
         | c # cs' \<Rightarrow> if c = CHR ''-'' then ([c], cs') else ([], cs)) = (sg, cs0)"
    by (cases "(case cs of [] \<Rightarrow> ([], cs)
         | c # cs' \<Rightarrow> if c = CHR ''-'' then ([c], cs') else ([], cs))") auto
  then have l0: "length cs0 \<le> length cs"
    by (auto split: list.splits if_splits)
  from a s obtain i cs1 f cs2 e where
    "lex_int cs0 = Some (i, cs1)" "lex_frac cs1 = Some (f, cs2)" "lex_exp cs2 = Some (e, r)"
    by (auto simp: lex_number_def split: option.splits)
  then have "length cs1 < length cs0" "length cs2 \<le> length cs1" "length r \<le> length cs2"
    by (auto dest: lex_int_length lex_frac_length lex_exp_length)
  with l0 show ?thesis by simp
qed


lemma parse_length_all:
  "(\<forall>cs v r. parse_value n cs = Some (v, r) \<longrightarrow> length r < length cs) \<and>
   (\<forall>cs vs r. parse_elements n cs = Some (vs, r) \<longrightarrow> length r < length cs) \<and>
   (\<forall>cs ms r. parse_members n cs = Some (ms, r) \<longrightarrow> length r < length cs)"
proof (induction n)
  case 0
  show ?case by simp
next
  case (Suc n)
  then have E: "\<And>cs vs r. parse_elements n cs = Some (vs, r) \<Longrightarrow> length r < length cs"
    and M: "\<And>cs ms r. parse_members n cs = Some (ms, r) \<Longrightarrow> length r < length cs"
    by blast+
  have V: "length r < length cs" if p: "parse_value (Suc n) cs = Some (v, r)" for cs v r
  proof -
    from p obtain c cs1 where sk: "skip_ws cs = c # cs1"
      by (cases "skip_ws cs") auto
    have l1: "length cs1 < length cs" by (rule skip_ws_Cons_length[OF sk])
    have l0: "length (c # cs1) \<le> length cs" using length_skip_ws[of cs] sk by simp
    consider (str) "c = CHR 0x22" | (arr) "c = CHR ''[''" | (obj) "c = CHR ''{''"
      | (other) "c \<noteq> CHR 0x22" "c \<noteq> CHR ''[''" "c \<noteq> CHR ''{''"
      by blast
    then show ?thesis
    proof cases
      case str
      with p sk obtain s where "parse_chars cs1 = Some (s, r)" by auto
      then have "length r < length cs1" by (rule parse_chars_length)
      with l1 show ?thesis by simp
    next
      case arr
      with p sk obtain d cs2 where sk2: "skip_ws cs1 = d # cs2"
        by (cases "skip_ws cs1") auto
      show ?thesis
      proof (cases "d = CHR '']''")
        case True
        with p sk arr sk2 have "r = cs2" by simp
        then show ?thesis using skip_ws_Cons_length[OF sk2] l1 by simp
      next
        case False
        with p sk arr sk2 obtain vs where "parse_elements n cs1 = Some (vs, r)" by auto
        then have "length r < length cs1" by (rule E)
        with l1 show ?thesis by simp
      qed
    next
      case obj
      with p sk obtain d cs2 where sk2: "skip_ws cs1 = d # cs2"
        by (cases "skip_ws cs1") auto
      show ?thesis
      proof (cases "d = CHR ''}''")
        case True
        with p sk obj sk2 have "r = cs2" by simp
        then show ?thesis using skip_ws_Cons_length[OF sk2] l1 by simp
      next
        case False
        with p sk obj sk2 obtain ms where "parse_members n cs1 = Some (ms, r)" by auto
        then have "length r < length cs1" by (rule M)
        with l1 show ?thesis by simp
      qed
    next
      case other
      with p sk have "(\<exists>w x. w \<noteq> [] \<and> lex_word w x (c # cs1) = Some (v, r)) \<or>
                      (\<exists>l. lex_number (c # cs1) = Some (l, r))"
        by (auto split: if_splits)
      then have "length r < length (c # cs1)"
        by (auto dest: lex_word_length lex_number_length)
      with l0 show ?thesis by simp
    qed
  qed
  have E': "length r < length cs" if p: "parse_elements (Suc n) cs = Some (vs, r)" for cs vs r
  proof -
    from p obtain v r0 where v: "parse_value (Suc n) cs = Some (v, r0)"
      by (auto split: option.splits)
    from p v obtain c r1 where sk: "skip_ws r0 = c # r1"
      by (cases "skip_ws r0") auto
    have l: "length r1 < length r0" by (rule skip_ws_Cons_length[OF sk])
    have l0: "length r0 < length cs" by (rule V[OF v])
    show ?thesis
    proof (cases "c = CHR '',''")
      case True
      with p v sk obtain vs' where "parse_elements n r1 = Some (vs', r)" by auto
      then have "length r < length r1" by (rule E)
      with l l0 show ?thesis by simp
    next
      case False
      with p v sk have "r = r1" by (auto split: if_splits)
      with l l0 show ?thesis by simp
    qed
  qed
  have M': "length r < length cs" if p: "parse_members (Suc n) cs = Some (ms, r)" for cs ms r
  proof -
    from p obtain q cs1 where sk: "skip_ws cs = q # cs1"
      by (cases "skip_ws cs") auto
    from p sk have q: "q = CHR 0x22" by (auto split: if_splits)
    from p sk q obtain k cs2 where k: "parse_chars cs1 = Some (k, cs2)"
      by (auto split: option.splits)
    from p sk q k obtain c cs3 where sk2: "skip_ws cs2 = c # cs3"
      by (cases "skip_ws cs2") auto
    from p sk q k sk2 have c: "c = CHR '':''" by (auto split: if_splits)
    from p sk q k sk2 c obtain v r0 where v: "parse_value (Suc n) cs3 = Some (v, r0)"
      by (auto split: option.splits)
    from p sk q k sk2 c v obtain e r1 where sk3: "skip_ws r0 = e # r1"
      by (cases "skip_ws r0") auto
    have "length cs1 < length cs" by (rule skip_ws_Cons_length[OF sk])
    moreover have "length cs2 < length cs1" by (rule parse_chars_length[OF k])
    moreover have "length cs3 < length cs2" by (rule skip_ws_Cons_length[OF sk2])
    moreover have "length r0 < length cs3" by (rule V[OF v])
    moreover have "length r1 < length r0" by (rule skip_ws_Cons_length[OF sk3])
    ultimately have l: "length r1 < length cs" by simp
    show ?thesis
    proof (cases "e = CHR '',''")
      case True
      with p sk q k sk2 c v sk3 obtain ms' where "parse_members n r1 = Some (ms', r)" by auto
      then have "length r < length r1" by (rule M)
      with l show ?thesis by simp
    next
      case False
      with p sk q k sk2 c v sk3 have "r = r1" by (auto split: if_splits)
      with l show ?thesis by simp
    qed
  qed
  show ?case using V E' M' by blast
qed


lemma parse_value_length: "parse_value n cs = Some (v, r) \<Longrightarrow> length r < length cs"
  using parse_length_all[of n] by blast

lemma parse_value_bound_cong:
  assumes "\<And>c cs1. skip_ws cs = c # cs1 \<Longrightarrow> parse_elements m cs1 = parse_elements k cs1"
    and "\<And>c cs1. skip_ws cs = c # cs1 \<Longrightarrow> parse_members m cs1 = parse_members k cs1"
  shows "parse_value (Suc m) cs = parse_value (Suc k) cs"
  using assms by (auto split: list.splits)

lemma parse_elements_bound_cong:
  assumes "parse_value (Suc m) cs = parse_value (Suc k) cs"
    and "\<And>v r c r1. parse_value (Suc k) cs = Some (v, r) \<Longrightarrow> skip_ws r = c # r1 \<Longrightarrow>
           parse_elements m r1 = parse_elements k r1"
  shows "parse_elements (Suc m) cs = parse_elements (Suc k) cs"
  using assms by (auto simp del: parse_value.simps split: option.splits list.splits)

lemma parse_members_bound_cong:
  assumes "\<And>cs3. length cs3 < length cs \<Longrightarrow> parse_value (Suc m) cs3 = parse_value (Suc k) cs3"
    and "\<And>r1. Suc (length r1) < length cs \<Longrightarrow> parse_members m r1 = parse_members k r1"
  shows "parse_members (Suc m) cs = parse_members (Suc k) cs"
proof (cases "skip_ws cs")
  case Nil
  then show ?thesis by simp
next
  case (Cons q cs1)
  note sk = Cons
  have l1: "length cs1 < length cs" by (rule skip_ws_Cons_length[OF sk])
  show ?thesis
  proof (cases "parse_chars cs1")
    case None
    with sk show ?thesis by simp
  next
    case (Some a)
    obtain key cs2 where a: "a = (key, cs2)" by (cases a)
    have l2: "length cs2 < length cs1" using Some a by (intro parse_chars_length) simp
    show ?thesis
    proof (cases "skip_ws cs2")
      case Nil
      with sk Some a show ?thesis by simp
    next
      case (Cons c cs3)
      have l3: "length cs3 < length cs2" by (rule skip_ws_Cons_length[OF Cons])
      have v: "parse_value (Suc m) cs3 = parse_value (Suc k) cs3"
        using l1 l2 l3 by (intro assms(1)) simp
      show ?thesis
      proof (cases "parse_value (Suc k) cs3")
        case None
        with sk Some a Cons v show ?thesis by (simp del: parse_value.simps)
      next
        case (Some b)
        obtain x r where b: "b = (x, r)" by (cases b)
        have "parse_value (Suc k) cs3 = Some (x, r)" using Some b by (simp del: parse_value.simps)
        then have l4: "length r < length cs3" by (rule parse_value_length)
        show ?thesis
        proof (cases "skip_ws r")
          case Nil
          with sk \<open>parse_chars cs1 = Some a\<close> a Cons v Some b show ?thesis
            by (simp del: parse_value.simps)
        next
          case (Cons e r1)
          have l5: "length r1 < length r" by (rule skip_ws_Cons_length[OF Cons])
          have "parse_members m r1 = parse_members k r1"
            using l1 l2 l3 l4 l5 by (intro assms(2)) simp
          with sk \<open>parse_chars cs1 = Some a\<close> a \<open>skip_ws cs2 = c # cs3\<close> v Some b Cons
          show ?thesis by (simp del: parse_value.simps)
        qed
      qed
    qed
  qed
qed

lemma parse_bound_all:
  "(\<forall>cs. length cs < n \<longrightarrow> parse_value (Suc n) cs = parse_value n cs) \<and>
   (\<forall>cs. length cs < n \<longrightarrow> parse_elements (Suc n) cs = parse_elements n cs) \<and>
   (\<forall>cs. length cs < n \<longrightarrow> parse_members (Suc n) cs = parse_members n cs)"
proof (induction n)
  case 0
  show ?case by simp
next
  case (Suc n)
  then have E: "\<And>cs. length cs < n \<Longrightarrow> parse_elements (Suc n) cs = parse_elements n cs"
    and M: "\<And>cs. length cs < n \<Longrightarrow> parse_members (Suc n) cs = parse_members n cs"
    by blast+
  have V: "parse_value (Suc (Suc n)) cs = parse_value (Suc n) cs" if l: "length cs < Suc n" for cs
  proof (rule parse_value_bound_cong)
    fix c cs1 assume "skip_ws cs = c # cs1"
    then have "length cs1 < n" using skip_ws_Cons_length[of cs c cs1] l by simp
    then show "parse_elements (Suc n) cs1 = parse_elements n cs1"
      and "parse_members (Suc n) cs1 = parse_members n cs1"
      by (rule E, rule M)
  qed
  have E': "parse_elements (Suc (Suc n)) cs = parse_elements (Suc n) cs"
    if l: "length cs < Suc n" for cs
  proof (rule parse_elements_bound_cong)
    show "parse_value (Suc (Suc n)) cs = parse_value (Suc n) cs" by (rule V[OF l])
    fix v r c r1 assume "parse_value (Suc n) cs = Some (v, r)" "skip_ws r = c # r1"
    then have "length r1 < n"
      using parse_value_length[of "Suc n" cs v r] skip_ws_Cons_length[of r c r1] l by simp
    then show "parse_elements (Suc n) r1 = parse_elements n r1" by (rule E)
  qed
  have M': "parse_members (Suc (Suc n)) cs = parse_members (Suc n) cs"
    if l: "length cs < Suc n" for cs
  proof (rule parse_members_bound_cong)
    fix cs3 :: string assume "length cs3 < length cs"
    then show "parse_value (Suc (Suc n)) cs3 = parse_value (Suc n) cs3"
      using l by (intro V) simp
  next
    fix r1 :: string assume "Suc (length r1) < length cs"
    then show "parse_members (Suc n) r1 = parse_members n r1"
      using l by (intro M) simp
  qed
  show ?case using V E' M' by blast
qed

text \<open>
  With any bound above the length of the text the parser gives the result that
  \<open>JSON_parse\<close> gives: the bound that \<open>JSON_parse\<close> passes never cuts a parse short.
\<close>

lemma parse_value_bound_irrelevant:
  "length cs < n \<Longrightarrow> parse_value n cs = parse_value (Suc (length cs)) cs"
proof (induction n)
  case 0
  then show ?case by simp
next
  case (Suc n)
  show ?case
  proof (cases "length cs < n")
    case True
    then have "parse_value (Suc n) cs = parse_value n cs"
      using parse_bound_all[of n] by blast
    with Suc.IH[OF True] show ?thesis by simp
  next
    case False
    with Suc.prems have "n = length cs" by simp
    then show ?thesis by simp
  qed
qed


section \<open>Progress tracking (components/course-sidebar.tsx, components/chapter-content.tsx)\<close>

definition storageKey :: string where
  "storageKey = ''completedChapters''"

text \<open>\<open>new Set(JSON.parse(saved))\<close>.\<close>

definition parse_Set :: "string \<Rightarrow> js_error + jsset" where
  "parse_Set saved = (case JSON_parse saved of Inl e \<Rightarrow> Inl e | Inr v \<Rightarrow> new_Set v)"

subsection \<open>The sidebar\<close>

record SidebarState =
  completedChapters :: jsset

definition SidebarContent_init :: SidebarState where
  "SidebarContent_init = \<lparr>completedChapters = []\<rparr>"

text \<open>\<open>loadCompleted\<close> is called once when the sidebar mounts, and then as the listener
  of the window's \<open>storage\<close> event. An exception leaves it as \<open>Inl\<close>.\<close>

definition loadCompleted :: "storage \<Rightarrow> SidebarState \<Rightarrow> js_error + SidebarState" where
  "loadCompleted st sb =
     (case getItem st storageKey of
        None \<Rightarrow> Inr sb
      | Some saved \<Rightarrow>
          if saved = [] then Inr sb
          else (case parse_Set saved of
                  Inl e \<Rightarrow> Inl e
                | Inr S \<Rightarrow> Inr (sb\<lparr>completedChapters := S\<rparr>)))"

definition isChapterCompleted :: "SidebarState \<Rightarrow> string \<Rightarrow> bool" where
  "isChapterCompleted sb chapterId = Set_has (completedChapters sb) (JString chapterId)"

subsection \<open>The chapter view\<close>

record ChapterContentState =
  content :: string
  loading :: bool
  isCompleted :: bool

definition ChapterContent_init :: ChapterContentState where
  "ChapterContent_init = \<lparr>content = [], loading = True, isCompleted = False\<rparr>"

text \<open>
  The part of the view's effect that reads the storage; it runs after the view mounts
  and whenever its chapter changes. (The other part fetches the chapter's text and
  touches only \<open>content\<close> and \<open>loading\<close>.) The first argument is the component's
  \<open>chapter\<close>, the result of \<open>getChapterBySlug\<close> on its slug.
\<close>

definition ChapterContent_effect ::
    "Chapter option \<Rightarrow> storage \<Rightarrow> ChapterContentState \<Rightarrow> js_error + ChapterContentState" where
  "ChapterContent_effect chapter st view =
     (case chapter of
        None \<Rightarrow> Inr view
      | Some ch \<Rightarrow>
          (case getItem st storageKey of
             None \<Rightarrow> Inr view
           | Some saved \<Rightarrow>
               if saved = [] then Inr view
               else (case parse_Set saved of
                       Inl e \<Rightarrow> Inl e
                     | Inr completed \<Rightarrow>
                         Inr (view\<lparr>isCompleted := Set_has completed (JString (Chapter.id ch))\<rparr>))))"

text \<open>The record as \<open>toggleCompleted\<close> reads it:
  \<open>saved ? new Set(JSON.parse(saved)) : new Set()\<close>.\<close>

definition stored_record :: "storage \<Rightarrow> js_error + jsset" where
  "stored_record st =
     (case getItem st storageKey of
        None \<Rightarrow> Inr []
      | Some saved \<Rightarrow> if saved = [] then Inr [] else parse_Set saved)"

text \<open>
  \<open>toggleCompleted\<close> closes over the component's \<open>chapter\<close> and its state. It returns
  nothing; its effects are the new storage, the new state and whether it dispatched a
  \<open>storage\<close> event on its own window.
\<close>

definition toggleCompleted ::
    "Chapter option \<Rightarrow> storage \<Rightarrow> ChapterContentState \<Rightarrow>
     js_error + (storage \<times> ChapterContentState \<times> bool)" where
  "toggleCompleted chapter st view =
     (case chapter of
        None \<Rightarrow> Inr (st, view, False)
      | Some ch \<Rightarrow>
          (case stored_record st of
             Inl e \<Rightarrow> Inl e
           | Inr completed \<Rightarrow>
               (let completed' = (if isCompleted view
                                  then Set_delete completed (JString (Chapter.id ch))
                                  else Set_add completed (JString (Chapter.id ch)))
                in Inr (setItem st storageKey (JSON_stringify (JArray completed')),
                        view\<lparr>isCompleted := \<not> isCompleted view\<rparr>,
                        True))))"


subsection \<open>Sets of strings\<close>

lemma Set_has_strings [simp]: "Set_has (map JString ids) (JString i) = (i \<in> set ids)"
  by (induction ids) (auto simp: Set_has_def)

lemma Set_add_strings:
  "Set_add (map JString ids) (JString i) = map JString (if i \<in> set ids then ids else ids @ [i])"
  by (simp add: Set_add_def)

lemma Set_delete_strings:
  "Set_delete (map JString ids) (JString i) = map JString (removeAll i ids)"
  by (induction ids) (simp_all add: Set_delete_def)

text \<open>No two elements of a set are the same value.\<close>

fun svz_distinct :: "json list \<Rightarrow> bool" where
  "svz_distinct [] = True"
| "svz_distinct (x # xs) = (\<not> list_ex (\<lambda>y. sameValueZero y x) xs \<and> svz_distinct xs)"

lemma sameValueZero_sym: "sameValueZero a b = sameValueZero b a"
  by (cases a; cases b) auto

lemma svz_distinct_snoc:
  "svz_distinct (xs @ [x]) = (svz_distinct xs \<and> \<not> list_ex (\<lambda>y. sameValueZero y x) xs)"
  by (induction xs) (auto simp: sameValueZero_sym)

lemma svz_distinct_Set_add: "svz_distinct S \<Longrightarrow> svz_distinct (Set_add S x)"
  by (simp add: Set_add_def Set_has_def svz_distinct_snoc)

lemma svz_distinct_fold_Set_add:
  "svz_distinct S \<Longrightarrow> svz_distinct (fold (\<lambda>x S. Set_add S x) xs S)"
  by (induction xs arbitrary: S) (simp_all add: svz_distinct_Set_add)

lemma svz_distinct_new_Set: "new_Set v = Inr S \<Longrightarrow> svz_distinct S"
  by (cases v) (auto simp: new_Set_def svz_distinct_fold_Set_add)

lemma svz_distinct_strings [simp]: "svz_distinct (map JString ids) = distinct ids"
  by (induction ids) (auto simp: list_ex_iff)

lemma fold_Set_add_strings:
  "distinct (acc @ ids) \<Longrightarrow>
   fold (\<lambda>x S. Set_add S x) (map JString ids) (map JString acc) = map JString (acc @ ids)"
proof (induction ids arbitrary: acc)
  case Nil
  then show ?case by simp
next
  case (Cons i ids)
  have "Set_add (map JString acc) (JString i) = map JString (acc @ [i])"
    using Cons.prems by (simp add: Set_add_strings)
  moreover have "distinct ((acc @ [i]) @ ids)" using Cons.prems by simp
  ultimately show ?case using Cons.IH[of "acc @ [i]"] by simp
qed

lemma new_Set_strings:
  "distinct ids \<Longrightarrow> new_Set (JArray (map JString ids)) = Inr (map JString ids)"
  using fold_Set_add_strings[of "[]" ids] by (simp add: new_Set_def)

lemma JSON_stringify_array_nonempty: "JSON_stringify (JArray vs) \<noteq> []"
  by simp

lemma stored_record_strings:
  assumes "stored_record st = Inr (map JString ids)"
  shows "distinct ids"
proof (cases "getItem st storageKey")
  case None
  with assms show ?thesis by (simp add: stored_record_def)
next
  case (Some saved)
  show ?thesis
  proof (cases "saved = []")
    case True
    with assms Some show ?thesis by (simp add: stored_record_def)
  next
    case False
    with assms Some have "parse_Set saved = Inr (map JString ids)"
      by (simp add: stored_record_def)
    then obtain v where "new_Set v = Inr (map JString ids)"
      by (auto simp: parse_Set_def split: sum.splits)
    then have "svz_distinct (map JString ids)" by (rule svz_distinct_new_Set)
    then show ?thesis by simp
  qed
qed

lemma parse_Set_stringify_strings:
  "distinct ids \<Longrightarrow>
   parse_Set (JSON_stringify (JArray (map JString ids))) = Inr (map JString ids)"
  by (simp only: parse_Set_def JSON_parse_stringify_strings sum.case new_Set_strings)

lemma stored_record_setItem_strings:
  "distinct ids \<Longrightarrow>
   stored_record (setItem st storageKey (JSON_stringify (JArray (map JString ids)))) =
     Inr (map JString ids)"
  using JSON_stringify_array_nonempty[of "map JString ids"]
  by (simp add: stored_record_def getItem_def setItem_def parse_Set_stringify_strings
        del: JSON_stringify.simps)

lemma toggleCompleted_stored:
  assumes "stored_record st = Inr S"
  shows "toggleCompleted (Some ch) st view =
           Inr (setItem st storageKey
                  (JSON_stringify (JArray (if isCompleted view
                                           then Set_delete S (JString (Chapter.id ch))
                                           else Set_add S (JString (Chapter.id ch))))),
                view\<lparr>isCompleted := \<not> isCompleted view\<rparr>, True)"
  using assms by (simp add: toggleCompleted_def Let_def del: JSON_stringify.simps)


subsection \<open>Loading a corrupt value\<close>

lemma JSON_parse_Nil [simp]: "JSON_parse [] = Inl SyntaxError"
  by (simp add: JSON_parse_def)

text \<open>
  Claim C1, as the code has it. \<open>loadCompleted\<close> has no handler around \<open>JSON.parse\<close> and
  \<open>new Set\<close>: with nothing stored it leaves the record as it is; with a stored text that
  is not JSON (and not empty) it throws the parser's \<open>SyntaxError\<close> to its caller; with a
  stored text that parses to an object it throws a \<open>TypeError\<close>. It never writes the
  storage, so the stored value stays.
\<close>

theorem loadCompleted_corrupt_throws:
  "(getItem st storageKey = None \<longrightarrow> loadCompleted st sb = Inr sb) \<and>
   (getItem st storageKey = Some saved \<and> saved \<noteq> [] \<and> JSON_parse saved = Inl e \<longrightarrow>
      loadCompleted st sb = Inl e) \<and>
   (getItem st storageKey = Some saved \<and> JSON_parse saved = Inr (JObject ms) \<longrightarrow>
      loadCompleted st sb = Inl TypeError)"
proof (intro conjI impI)
  assume "getItem st storageKey = None"
  then show "loadCompleted st sb = Inr sb" by (simp add: loadCompleted_def)
next
  assume "getItem st storageKey = Some saved \<and> saved \<noteq> [] \<and> JSON_parse saved = Inl e"
  then show "loadCompleted st sb = Inl e" by (simp add: loadCompleted_def parse_Set_def)
next
  assume a: "getItem st storageKey = Some saved \<and> JSON_parse saved = Inr (JObject ms)"
  then have "saved \<noteq> []" by auto
  with a show "loadCompleted st sb = Inl TypeError"
    by (simp add: loadCompleted_def parse_Set_def new_Set_def)
qed

theorem loadCompleted_corrupt_throws_witness:
  \<open>getItem (setItem Map.empty storageKey ''not json'') storageKey = Some ''not json'' \<and>
   JSON_parse ''not json'' = Inl SyntaxError \<and>
   loadCompleted (setItem Map.empty storageKey ''not json'') SidebarContent_init =
     Inl SyntaxError \<and>
   JSON_parse ''{"not":"an array"}'' = Inr (JObject [(''not'', JString ''an array'')]) \<and>
   loadCompleted (setItem Map.empty storageKey ''{"not":"an array"}'') SidebarContent_init =
     Inl TypeError \<and>
   loadCompleted Map.empty SidebarContent_init = Inr SidebarContent_init\<close>
proof -
  have g1: \<open>getItem (setItem Map.empty storageKey ''not json'') storageKey = Some ''not json''\<close>
    and g2: \<open>getItem (setItem Map.empty storageKey ''{"not":"an array"}'') storageKey =
           Some ''{"not":"an array"}''\<close>
    and g3: "getItem Map.empty storageKey = None"
    by (simp_all add: getItem_def setItem_def)
  have p1: \<open>JSON_parse ''not json'' = Inl SyntaxError\<close> by code_simp
  have p2: \<open>JSON_parse ''{"not":"an array"}'' = Inr (JObject [(''not'', JString ''an array'')])\<close>
    by code_simp
  note t = loadCompleted_corrupt_throws
  have a: \<open>loadCompleted (setItem Map.empty storageKey ''not json'') SidebarContent_init =
             Inl SyntaxError\<close>
    using t[THEN conjunct2, THEN conjunct1, of _ \<open>''not json''\<close> SyntaxError] g1 p1 by simp
  have b: \<open>loadCompleted (setItem Map.empty storageKey ''{"not":"an array"}'')
             SidebarContent_init = Inl TypeError\<close>
    using t[THEN conjunct2, THEN conjunct2, of _ \<open>''{"not":"an array"}''\<close>] g2 p2 by simp
  have c: "loadCompleted Map.empty SidebarContent_init = Inr SidebarContent_init"
    using t[THEN conjunct1, of Map.empty] g3 by simp
  show ?thesis using g1 p1 a p2 b c by simp
qed

text \<open>
  The claim as the specification states it fails at its own two examples: neither load
  returns a record.
\<close>

theorem loadCompleted_corrupt_counterexample:
  \<open>loadCompleted (setItem Map.empty storageKey ''not json'') SidebarContent_init
     = Inl SyntaxError \<and>
   loadCompleted (setItem Map.empty storageKey ''{"not":"an array"}'') SidebarContent_init
     = Inl TypeError\<close>
  by code_simp


subsection \<open>Toggling\<close>

text \<open>What a toggle does to a record of identifiers, as a list.\<close>

definition toggled_ids :: "bool \<Rightarrow> string \<Rightarrow> string list \<Rightarrow> string list" where
  "toggled_ids flag i ids =
     (if flag then removeAll i ids else if i \<in> set ids then ids else ids @ [i])"

lemma toggled_ids_Set:
  "map JString (toggled_ids flag i ids) =
     (if flag then Set_delete (map JString ids) (JString i)
      else Set_add (map JString ids) (JString i))"
  by (simp add: toggled_ids_def Set_add_strings Set_delete_strings)

lemma distinct_toggled_ids: "distinct ids \<Longrightarrow> distinct (toggled_ids flag i ids)"
  by (simp add: toggled_ids_def distinct_removeAll)

lemma set_toggled_ids:
  "set (toggled_ids flag i ids) = (if flag then set ids - {i} else insert i (set ids))"
  by (auto simp: toggled_ids_def)

lemma toggleCompleted_strings:
  assumes "stored_record st = Inr (map JString ids)"
  shows "toggleCompleted (Some ch) st view =
           Inr (setItem st storageKey
                  (JSON_stringify
                     (JArray (map JString (toggled_ids (isCompleted view) (Chapter.id ch) ids)))),
                view\<lparr>isCompleted := \<not> isCompleted view\<rparr>, True)"
    and "stored_record
           (setItem st storageKey
              (JSON_stringify
                 (JArray (map JString (toggled_ids (isCompleted view) (Chapter.id ch) ids))))) =
           Inr (map JString (toggled_ids (isCompleted view) (Chapter.id ch) ids))"
proof -
  have d: "distinct ids" using assms(1) by (rule stored_record_strings)
  show "toggleCompleted (Some ch) st view =
           Inr (setItem st storageKey
                  (JSON_stringify
                     (JArray (map JString (toggled_ids (isCompleted view) (Chapter.id ch) ids)))),
                view\<lparr>isCompleted := \<not> isCompleted view\<rparr>, True)"
    unfolding toggleCompleted_stored[OF assms(1)] toggled_ids_Set by simp
  show "stored_record
           (setItem st storageKey
              (JSON_stringify
                 (JArray (map JString (toggled_ids (isCompleted view) (Chapter.id ch) ids))))) =
           Inr (map JString (toggled_ids (isCompleted view) (Chapter.id ch) ids))"
    using d by (intro stored_record_setItem_strings distinct_toggled_ids)
qed

text \<open>
  Claim C9. \<open>toggleCompleted\<close> chooses between removing and adding by the view's cached
  flag \<open>isCompleted\<close>, not by the membership in the record it has just read. For every
  stored record of identifiers \<open>S\<close> and either value of the flag, the record in storage
  afterwards is \<open>S\<close> without the chapter's identifier when the flag was true, and \<open>S\<close>
  with it when the flag was false; so the chapter's membership afterwards is the
  negation of the flag, whatever its membership in \<open>S\<close> was, and the membership of
  every other identifier is as before.
\<close>

theorem toggleCompleted_follows_cached_flag:
  assumes "stored_record st = Inr S" and "S = map JString ids"
  shows "\<exists>st' S'. toggleCompleted (Some ch) st view =
                     Inr (st', view\<lparr>isCompleted := \<not> isCompleted view\<rparr>, True) \<and>
           stored_record st' = Inr S' \<and>
           S' = (if isCompleted view then Set_delete S (JString (Chapter.id ch))
                 else Set_add S (JString (Chapter.id ch))) \<and>
           Set_has S' (JString (Chapter.id ch)) = (\<not> isCompleted view) \<and>
           (\<forall>j. j \<noteq> Chapter.id ch \<longrightarrow> Set_has S' (JString j) = Set_has S (JString j))"
proof -
  define ids' where "ids' = toggled_ids (isCompleted view) (Chapter.id ch) ids"
  have r: "stored_record st = Inr (map JString ids)" using assms by simp
  note t = toggleCompleted_strings[OF r, where ch = ch and view = view, folded ids'_def]
  have s: "map JString ids' = (if isCompleted view then Set_delete S (JString (Chapter.id ch))
                 else Set_add S (JString (Chapter.id ch)))"
    by (simp add: ids'_def assms(2) toggled_ids_Set)
  have m: "Set_has (map JString ids') (JString (Chapter.id ch)) = (\<not> isCompleted view)"
    by (simp add: ids'_def set_toggled_ids)
  have o: "\<forall>j. j \<noteq> Chapter.id ch \<longrightarrow>
             Set_has (map JString ids') (JString j) = Set_has S (JString j)"
    by (simp add: ids'_def assms(2) set_toggled_ids)
  show ?thesis
  proof (intro exI conjI)
    show "toggleCompleted (Some ch) st view =
            Inr (setItem st storageKey (JSON_stringify (JArray (map JString ids'))),
                 view\<lparr>isCompleted := \<not> isCompleted view\<rparr>, True)"
      by (rule t(1))
    show "stored_record (setItem st storageKey (JSON_stringify (JArray (map JString ids')))) =
            Inr (map JString ids')"
      by (rule t(2))
  qed (rule s, rule m, rule o)
qed


lemma stored_record_example:
  \<open>stored_record (setItem Map.empty storageKey ''["ch01","ch07"]'') =
     Inr (map JString [''ch01'', ''ch07''])\<close>
  by code_simp

theorem toggleCompleted_follows_cached_flag_witness:
  \<open>stored_record (setItem Map.empty storageKey ''["ch01","ch07"]'') =
     Inr (map JString [''ch01'', ''ch07'']) \<and>
   isCompleted ChapterContent_init = False \<and>
   (\<exists>st'. toggleCompleted (Some ch01) (setItem Map.empty storageKey ''["ch01","ch07"]'')
            ChapterContent_init =
            Inr (st', ChapterContent_init\<lparr>isCompleted := True\<rparr>, True) \<and>
          stored_record st' = Inr [JString ''ch01'', JString ''ch07''])\<close>
proof -
  let ?st = \<open>setItem Map.empty storageKey ''["ch01","ch07"]''\<close>
  have i: "Chapter.id ch01 = ''ch01''" by (simp add: ch01_def mkChapter_def)
  have f: "isCompleted ChapterContent_init = False" by (simp add: ChapterContent_init_def)
  obtain st' S' where
    t: "toggleCompleted (Some ch01) ?st ChapterContent_init =
          Inr (st', ChapterContent_init\<lparr>isCompleted := \<not> isCompleted ChapterContent_init\<rparr>, True)"
    and r: "stored_record st' = Inr S'"
    and S': "S' = (if isCompleted ChapterContent_init
                   then Set_delete (map JString [''ch01'', ''ch07'']) (JString (Chapter.id ch01))
                   else Set_add (map JString [''ch01'', ''ch07'']) (JString (Chapter.id ch01)))"
    using toggleCompleted_follows_cached_flag[OF stored_record_example refl,
        of ch01 ChapterContent_init] by blast
  have "S' = [JString ''ch01'', JString ''ch07'']"
    unfolding S' by (simp add: f i Set_add_def Set_has_def)
  with t r f stored_record_example show ?thesis by auto
qed

text \<open>
  Claim C4, as the code has it. When the view's cached flag agrees with the chapter's
  membership in the stored record of identifiers, \<open>toggleCompleted\<close> flips that
  membership and no other, writes the whole new record to the storage before it
  returns, dispatches a \<open>storage\<close> event on its own window and negates the flag. It
  returns no value: the new record is in the storage, and the view re-renders from the
  flag.
\<close>

theorem toggleCompleted_flips_when_flag_agrees:
  assumes "stored_record st = Inr (map JString ids)"
    and "isCompleted view = (Chapter.id ch \<in> set ids)"
  shows "\<exists>st' ids'. toggleCompleted (Some ch) st view =
                       Inr (st', view\<lparr>isCompleted := \<not> isCompleted view\<rparr>, True) \<and>
           getItem st' storageKey = Some (JSON_stringify (JArray (map JString ids'))) \<and>
           stored_record st' = Inr (map JString ids') \<and>
           (Chapter.id ch \<in> set ids') = (Chapter.id ch \<notin> set ids) \<and>
           (\<forall>j. j \<noteq> Chapter.id ch \<longrightarrow> (j \<in> set ids') = (j \<in> set ids))"
proof -
  define ids' where "ids' = toggled_ids (isCompleted view) (Chapter.id ch) ids"
  note t = toggleCompleted_strings[OF assms(1), where ch = ch and view = view, folded ids'_def]
  show ?thesis
  proof (intro exI conjI)
    show "toggleCompleted (Some ch) st view =
            Inr (setItem st storageKey (JSON_stringify (JArray (map JString ids'))),
                 view\<lparr>isCompleted := \<not> isCompleted view\<rparr>, True)"
      by (rule t(1))
    show "getItem (setItem st storageKey (JSON_stringify (JArray (map JString ids'))))
            storageKey = Some (JSON_stringify (JArray (map JString ids')))"
      by (simp add: getItem_def setItem_def)
    show "stored_record (setItem st storageKey (JSON_stringify (JArray (map JString ids')))) =
            Inr (map JString ids')"
      by (rule t(2))
    show "(Chapter.id ch \<in> set ids') = (Chapter.id ch \<notin> set ids)"
      using assms(2) by (simp add: ids'_def set_toggled_ids)
    show "\<forall>j. j \<noteq> Chapter.id ch \<longrightarrow> (j \<in> set ids') = (j \<in> set ids)"
      by (simp add: ids'_def set_toggled_ids)
  qed
qed

theorem toggleCompleted_flips_when_flag_agrees_witness:
  \<open>stored_record (setItem Map.empty storageKey ''["ch01","ch07"]'') =
     Inr (map JString [''ch01'', ''ch07'']) \<and>
   isCompleted ChapterContent_init = (Chapter.id ch03 \<in> set [''ch01'', ''ch07'']) \<and>
   (\<exists>st' ids'. toggleCompleted (Some ch03) (setItem Map.empty storageKey ''["ch01","ch07"]'')
                  ChapterContent_init =
                  Inr (st', ChapterContent_init\<lparr>isCompleted := True\<rparr>, True) \<and>
               stored_record st' = Inr (map JString ids') \<and>
               set ids' = {''ch01'', ''ch03'', ''ch07''})\<close>
proof -
  let ?st = \<open>setItem Map.empty storageKey ''["ch01","ch07"]''\<close>
  have i: "Chapter.id ch03 = ''ch03''" by (simp add: ch03_def mkChapter_def)
  have f: "isCompleted ChapterContent_init = (Chapter.id ch03 \<in> set [''ch01'', ''ch07''])"
    by (simp add: ChapterContent_init_def i)
  obtain st' ids' where
    t: "toggleCompleted (Some ch03) ?st ChapterContent_init =
          Inr (st', ChapterContent_init\<lparr>isCompleted := \<not> isCompleted ChapterContent_init\<rparr>, True)"
    and r: "stored_record st' = Inr (map JString ids')"
    and m: "(Chapter.id ch03 \<in> set ids') = (Chapter.id ch03 \<notin> set [''ch01'', ''ch07''])"
    and o: "\<forall>j. j \<noteq> Chapter.id ch03 \<longrightarrow> (j \<in> set ids') = (j \<in> set [''ch01'', ''ch07''])"
    using toggleCompleted_flips_when_flag_agrees[OF stored_record_example f] by blast
  have "set ids' = {''ch01'', ''ch03'', ''ch07''}"
  proof (rule set_eqI)
    fix j show "(j \<in> set ids') = (j \<in> {''ch01'', ''ch03'', ''ch07''})"
      using m o[rule_format, of j] by (cases "j = ''ch03''") (auto simp: i)
  qed
  with t r f stored_record_example show ?thesis
    by (auto simp: ChapterContent_init_def)
qed

text \<open>
  The claim as the specification states it fails when the cached flag is stale: the
  record holds \<open>ch01\<close>, the view of \<open>ch01\<close> still has its flag false, and the toggle stores
  the same record again, with \<open>ch01\<close> still in it.
\<close>

theorem toggleCompleted_flip_counterexample:
  \<open>stored_record (setItem Map.empty storageKey ''["ch01","ch07"]'') =
     Inr [JString ''ch01'', JString ''ch07''] \<and>
   toggleCompleted (Some ch01) (setItem Map.empty storageKey ''["ch01","ch07"]'')
     \<lparr>content = [], loading = False, isCompleted = False\<rparr> =
     Inr (setItem Map.empty storageKey ''["ch01","ch07"]'',
          \<lparr>content = [], loading = False, isCompleted = True\<rparr>, True) \<and>
   Set_has [JString ''ch01'', JString ''ch07''] (JString (Chapter.id ch01))\<close>
proof -
  have r: \<open>stored_record (setItem Map.empty storageKey ''["ch01","ch07"]'') =
     Inr [JString ''ch01'', JString ''ch07'']\<close>
    by code_simp
  have i: "Chapter.id ch01 = ''ch01''" by (simp add: ch01_def mkChapter_def)
  have u: "setItem (setItem st storageKey a) storageKey b = setItem st storageKey b" for st a b
    by (simp add: setItem_def)
  show ?thesis
    unfolding toggleCompleted_stored[OF r]
    by (simp add: r i u Set_add_def Set_has_def quote_def escape_char_def)
qed


text \<open>
  The format of the stored value is kept: when the storage holds a record of
  identifiers, what \<open>toggleCompleted\<close> writes is the JSON text of an array of pairwise
  distinct strings, whatever the flag.
\<close>

theorem toggleCompleted_writes_unique_strings:
  assumes "stored_record st = Inr (map JString ids)"
  shows "\<exists>st' v' saved ids'. toggleCompleted (Some ch) st view = Inr (st', v', True) \<and>
           getItem st' storageKey = Some saved \<and>
           JSON_parse saved = Inr (JArray (map JString ids')) \<and> distinct ids'"
proof -
  define ids' where "ids' = toggled_ids (isCompleted view) (Chapter.id ch) ids"
  note t = toggleCompleted_strings[OF assms, where ch = ch and view = view, folded ids'_def]
  have d: "distinct ids'"
    unfolding ids'_def using stored_record_strings[OF assms] by (rule distinct_toggled_ids)
  show ?thesis
    using t(1) d JSON_parse_stringify_strings[of ids']
    by (intro exI[of _ "setItem st storageKey (JSON_stringify (JArray (map JString ids')))"]
          exI[of _ "view\<lparr>isCompleted := \<not> isCompleted view\<rparr>"]
          exI[of _ "JSON_stringify (JArray (map JString ids'))"] exI[of _ ids'])
       (simp del: JSON_stringify.simps)
qed

theorem toggleCompleted_writes_unique_strings_witness:
  \<open>stored_record (setItem Map.empty storageKey ''["ch01","ch07"]'') =
     Inr (map JString [''ch01'', ''ch07'']) \<and>
   (\<exists>st' v' saved ids'.
      toggleCompleted (Some ch07) (setItem Map.empty storageKey ''["ch01","ch07"]'')
        ChapterContent_init = Inr (st', v', True) \<and>
      getItem st' storageKey = Some saved \<and>
      JSON_parse saved = Inr (JArray (map JString ids')) \<and> distinct ids')\<close>
  using toggleCompleted_writes_unique_strings[OF stored_record_example, of ch07 ChapterContent_init]
    stored_record_example
  by simp


subsection \<open>A session of one view, and a restart\<close>

text \<open>
  What a user does in one window: open a chapter page (the view mounts with its initial
  state and its effect runs), move to another chapter within the mounted view (the
  state is kept and the effect runs again, as the chapter has changed), or click the
  completion button. The chapter is the one the catalog finds for the page's slug, or
  none.
\<close>

datatype action = Open "Chapter option" | Navigate "Chapter option" | Click

record Session =
  localStorage :: storage
  current :: "Chapter option"
  state :: ChapterContentState

definition Session_init :: Session where
  "Session_init = \<lparr>localStorage = Map.empty, current = None, state = ChapterContent_init\<rparr>"

fun step :: "Session \<Rightarrow> action \<Rightarrow> js_error + Session" where
  "step s (Open c) =
     (case ChapterContent_effect c (localStorage s) ChapterContent_init of
        Inl e \<Rightarrow> Inl e
      | Inr v \<Rightarrow> Inr (s\<lparr>current := c, state := v\<rparr>))"
| "step s (Navigate c) =
     (if c = current s then Inr s
      else (case ChapterContent_effect c (localStorage s) (state s) of
              Inl e \<Rightarrow> Inl e
            | Inr v \<Rightarrow> Inr (s\<lparr>current := c, state := v\<rparr>)))"
| "step s Click =
     (case toggleCompleted (current s) (localStorage s) (state s) of
        Inl e \<Rightarrow> Inl e
      | Inr (st', v', dispatched) \<Rightarrow> Inr (s\<lparr>localStorage := st', state := v'\<rparr>))"

fun run :: "Session \<Rightarrow> action list \<Rightarrow> js_error + Session" where
  "run s [] = Inr s"
| "run s (a # as) = (case step s a of Inl e \<Rightarrow> Inl e | Inr s' \<Rightarrow> run s' as)"

text \<open>The identifiers toggled by a list of actions, in order: one for every click made
  while a chapter is shown.\<close>

fun toggles :: "Chapter option \<Rightarrow> action list \<Rightarrow> string list" where
  "toggles cur [] = []"
| "toggles cur (Open c # as) = toggles c as"
| "toggles cur (Navigate c # as) = toggles c as"
| "toggles cur (Click # as) =
     (case cur of None \<Rightarrow> toggles cur as | Some ch \<Rightarrow> Chapter.id ch # toggles cur as)"

text \<open>The state of a session whose storage holds the identifiers \<open>ids\<close>, written by the
  program itself, and whose view agrees with it.\<close>

definition consistent :: "Session \<Rightarrow> string list \<Rightarrow> bool" where
  "consistent s ids =
     (stored_record (localStorage s) = Inr (map JString ids) \<and>
      getItem (localStorage s) storageKey \<noteq> Some [] \<and>
      (getItem (localStorage s) storageKey = None \<longrightarrow> \<not> isCompleted (state s)) \<and>
      (\<forall>ch. current s = Some ch \<longrightarrow> isCompleted (state s) = (Chapter.id ch \<in> set ids)))"

lemma consistent_init: "consistent Session_init []"
  by (simp add: consistent_def Session_init_def stored_record_def getItem_def
        ChapterContent_init_def)

lemma effect_consistent:
  assumes "stored_record st = Inr (map JString ids)" "getItem st storageKey \<noteq> Some []"
  shows "ChapterContent_effect (Some ch) st v =
           Inr (if getItem st storageKey = None then v
                else v\<lparr>isCompleted := Chapter.id ch \<in> set ids\<rparr>)"
  using assms
  by (auto simp: ChapterContent_effect_def stored_record_def split: option.splits)

lemma stored_record_None_ids:
  "stored_record st = Inr (map JString ids) \<Longrightarrow> getItem st storageKey = None \<Longrightarrow> ids = []"
  by (simp add: stored_record_def)

lemma effect_step:
  assumes "stored_record st = Inr (map JString ids)" "getItem st storageKey \<noteq> Some []"
    and "getItem st storageKey = None \<longrightarrow> \<not> isCompleted v"
  shows "\<exists>v'. ChapterContent_effect c st v = Inr v' \<and>
           (getItem st storageKey = None \<longrightarrow> \<not> isCompleted v') \<and>
           (\<forall>ch. c = Some ch \<longrightarrow> isCompleted v' = (Chapter.id ch \<in> set ids))"
proof (cases c)
  case None
  then show ?thesis using assms(3) by (simp add: ChapterContent_effect_def)
next
  case (Some ch)
  show ?thesis
  proof (cases "getItem st storageKey = None")
    case True
    then have "ids = []" using assms(1) by (rule stored_record_None_ids[rotated])
    then show ?thesis
      using Some True assms(3) by (simp add: effect_consistent[OF assms(1,2)])
  next
    case False
    then show ?thesis
      using Some by (auto simp: effect_consistent[OF assms(1,2)])
  qed
qed

lemma consistent_view:
  assumes "consistent s ids"
    and "getItem (localStorage s) storageKey = None \<longrightarrow> \<not> isCompleted v'"
    and "\<forall>ch. c = Some ch \<longrightarrow> isCompleted v' = (Chapter.id ch \<in> set ids)"
  shows "consistent (s\<lparr>current := c, state := v'\<rparr>) ids"
  using assms by (simp add: consistent_def)

lemma step_consistent:
  assumes "consistent s ids"
  shows "\<exists>s' ids'. step s a = Inr s' \<and> consistent s' ids' \<and>
           current s' = (case a of Open c \<Rightarrow> c | Navigate c \<Rightarrow> c | Click \<Rightarrow> current s) \<and>
           (\<forall>i. (i \<in> set ids') = ((i \<in> set ids) \<noteq> odd (count_list (toggles (current s) [a]) i)))"
proof (cases a)
  case (Open c)
  have r: "stored_record (localStorage s) = Inr (map JString ids)"
    and n: "getItem (localStorage s) storageKey \<noteq> Some []"
    using assms by (simp_all add: consistent_def)
  have "getItem (localStorage s) storageKey = None \<longrightarrow> \<not> isCompleted ChapterContent_init"
    by (simp add: ChapterContent_init_def)
  from effect_step[OF r n this, of c] obtain v' where
    e: "ChapterContent_effect c (localStorage s) ChapterContent_init = Inr v'"
    and v1: "getItem (localStorage s) storageKey = None \<longrightarrow> \<not> isCompleted v'"
    and v2: "\<forall>ch. c = Some ch \<longrightarrow> isCompleted v' = (Chapter.id ch \<in> set ids)"
    by (elim exE conjE)
  have "step s a = Inr (s\<lparr>current := c, state := v'\<rparr>)" using Open e by simp
  moreover have "consistent (s\<lparr>current := c, state := v'\<rparr>) ids"
    using assms v1 v2 by (rule consistent_view)
  ultimately show ?thesis
    using Open by (intro exI[of _ "s\<lparr>current := c, state := v'\<rparr>"] exI[of _ ids]) simp
next
  case (Navigate c)
  show ?thesis
  proof (cases "c = current s")
    case True
    then show ?thesis using assms Navigate
      by (intro exI[of _ s] exI[of _ ids]) simp
  next
    case False
    have r: "stored_record (localStorage s) = Inr (map JString ids)"
      and n: "getItem (localStorage s) storageKey \<noteq> Some []"
      and f: "getItem (localStorage s) storageKey = None \<longrightarrow> \<not> isCompleted (state s)"
      using assms by (simp_all add: consistent_def)
    from effect_step[OF r n f, of c] obtain v' where
      e: "ChapterContent_effect c (localStorage s) (state s) = Inr v'"
      and v1: "getItem (localStorage s) storageKey = None \<longrightarrow> \<not> isCompleted v'"
      and v2: "\<forall>ch. c = Some ch \<longrightarrow> isCompleted v' = (Chapter.id ch \<in> set ids)"
      by (elim exE conjE)
    have "step s a = Inr (s\<lparr>current := c, state := v'\<rparr>)" using Navigate e False by simp
    moreover have "consistent (s\<lparr>current := c, state := v'\<rparr>) ids"
      using assms v1 v2 by (rule consistent_view)
    ultimately show ?thesis
      using Navigate by (intro exI[of _ "s\<lparr>current := c, state := v'\<rparr>"] exI[of _ ids]) simp
  qed
next
  case Click
  show ?thesis
  proof (cases "current s")
    case None
    then show ?thesis using assms Click
      by (intro exI[of _ s] exI[of _ ids]) (simp add: toggleCompleted_def)
  next
    case (Some ch)
    have r: "stored_record (localStorage s) = Inr (map JString ids)"
      and f: "isCompleted (state s) = (Chapter.id ch \<in> set ids)"
      using assms Some by (simp_all add: consistent_def)
    define ids' where "ids' = toggled_ids (isCompleted (state s)) (Chapter.id ch) ids"
    define st' where
      "st' = setItem (localStorage s) storageKey (JSON_stringify (JArray (map JString ids')))"
    note t = toggleCompleted_strings[OF r, where ch = ch and view = "state s",
        folded ids'_def, folded st'_def]
    have g: "getItem st' storageKey = Some (JSON_stringify (JArray (map JString ids')))"
      by (simp add: st'_def getItem_def setItem_def)
    have ne: "JSON_stringify (JArray (map JString ids')) \<noteq> []"
      by (rule JSON_stringify_array_nonempty)
    have m: "\<forall>i. (i \<in> set ids') = ((i \<in> set ids) \<noteq> (i = Chapter.id ch))"
      using f by (auto simp: ids'_def set_toggled_ids)
    let ?s' = "s\<lparr>localStorage := st', state := (state s)\<lparr>isCompleted := \<not> isCompleted (state s)\<rparr>\<rparr>"
    have "step s a = Inr ?s'"
      using Click Some t(1) by simp
    moreover have "consistent ?s' ids'"
      using t(2) g ne m f Some by (simp add: consistent_def)
    moreover have "\<forall>i. (i \<in> set ids') =
        ((i \<in> set ids) \<noteq> odd (count_list (toggles (current s) [a]) i))"
      using m Click Some by auto
    ultimately show ?thesis using Click by (intro exI[of _ ?s'] exI[of _ ids']) simp
  qed
qed


lemma toggles_Cons:
  "toggles cur (a # as) =
     toggles cur [a] @
     toggles (case a of Open c \<Rightarrow> c | Navigate c \<Rightarrow> c | Click \<Rightarrow> cur) as"
  by (cases a) (simp_all split: option.splits)

lemma run_consistent:
  "consistent s ids \<Longrightarrow>
   \<exists>s' ids'. run s acts = Inr s' \<and> consistent s' ids' \<and>
     (\<forall>i. (i \<in> set ids') = ((i \<in> set ids) \<noteq> odd (count_list (toggles (current s) acts) i)))"
proof (induction acts arbitrary: s ids)
  case Nil
  then show ?case by (intro exI[of _ s] exI[of _ ids]) simp
next
  case (Cons a acts)
  from step_consistent[OF Cons.prems, of a] obtain s1 ids1 where
    s1: "step s a = Inr s1" and c1: "consistent s1 ids1"
    and cur: "current s1 = (case a of Open c \<Rightarrow> c | Navigate c \<Rightarrow> c | Click \<Rightarrow> current s)"
    and m1: "\<forall>i. (i \<in> set ids1) =
               ((i \<in> set ids) \<noteq> odd (count_list (toggles (current s) [a]) i))"
    by (elim exE conjE)
  from Cons.IH[OF c1] obtain s2 ids2 where
    s2: "run s1 acts = Inr s2" and c2: "consistent s2 ids2"
    and m2: "\<forall>i. (i \<in> set ids2) =
               ((i \<in> set ids1) \<noteq> odd (count_list (toggles (current s1) acts) i))"
    by (elim exE conjE)
  have "run s (a # acts) = Inr s2" using s1 s2 by simp
  moreover have "\<forall>i. (i \<in> set ids2) =
      ((i \<in> set ids) \<noteq> odd (count_list (toggles (current s) (a # acts)) i))"
  proof
    fix i
    have "count_list (toggles (current s) (a # acts)) i =
            count_list (toggles (current s) [a]) i + count_list (toggles (current s1) acts) i"
      by (subst toggles_Cons) (simp add: cur)
    then show "(i \<in> set ids2) =
      ((i \<in> set ids) \<noteq> odd (count_list (toggles (current s) (a # acts)) i))"
      using m1[rule_format, of i] m2[rule_format, of i] by auto
  qed
  ultimately show ?case using c2 by (intro exI[of _ s2] exI[of _ ids2]) simp
qed

lemma loadCompleted_consistent:
  assumes "consistent s ids"
  shows "loadCompleted (localStorage s) SidebarContent_init =
           Inr \<lparr>completedChapters = map JString ids\<rparr>"
proof (cases "getItem (localStorage s) storageKey")
  case None
  then have "ids = []" using assms by (simp add: consistent_def stored_record_def)
  then show ?thesis using None by (simp add: loadCompleted_def SidebarContent_init_def)
next
  case (Some saved)
  then have "saved \<noteq> []" "parse_Set saved = Inr (map JString ids)"
    using assms by (auto simp: consistent_def stored_record_def)
  then show ?thesis using Some by (simp add: loadCompleted_def SidebarContent_init_def)
qed

text \<open>
  Claim C5, as the code has it. Start with nothing stored and let one view perform any
  finite list of actions; every click toggles the identifier of the chapter shown. The
  run never throws, and a sidebar mounted afterwards on the storage it leaves (a
  restart: fresh component state, the same storage) loads exactly the identifiers that
  were toggled an odd number of times, each once.
\<close>

theorem toggles_then_restart_odd_count:
  "\<exists>s sb. run Session_init acts = Inr s \<and>
     loadCompleted (localStorage s) SidebarContent_init = Inr sb \<and>
     distinct (completedChapters sb) \<and>
     set (completedChapters sb) = JString ` {i. odd (count_list (toggles None acts) i)} \<and>
     isChapterCompleted sb j = odd (count_list (toggles None acts) j)"
proof -
  from run_consistent[OF consistent_init, of acts] obtain s ids where
    r: "run Session_init acts = Inr s" and c: "consistent s ids"
    and m: "\<forall>i. (i \<in> set ids) = odd (count_list (toggles None acts) i)"
    by (auto simp: Session_init_def)
  have d: "distinct ids"
    using c by (intro stored_record_strings[of "localStorage s"]) (simp add: consistent_def)
  have l: "loadCompleted (localStorage s) SidebarContent_init =
             Inr \<lparr>completedChapters = map JString ids\<rparr>"
    using c by (rule loadCompleted_consistent)
  have "set ids = {i. odd (count_list (toggles None acts) i)}" using m by auto
  then show ?thesis
    using r l d m
    by (intro exI[of _ s] exI[of _ "\<lparr>completedChapters = map JString ids\<rparr>"])
       (simp add: distinct_map inj_on_def isChapterCompleted_def)
qed


subsection \<open>Several windows on one storage\<close>

text \<open>
  A window of the application shows the sidebar and one chapter view. The sidebar's
  listener for the window's \<open>storage\<close> event is registered while the sidebar is
  mounted. All windows of one origin share the storage.
\<close>

record Tab =
  sidebar :: SidebarState
  subscribed :: bool
  shown :: "Chapter option"
  chapterView :: ChapterContentState

record Browser =
  storageArea :: storage
  tabs :: "Tab list"

text \<open>A \<open>storage\<close> event arrives at a window: its listener, \<open>loadCompleted\<close>, runs. An
  exception in a listener is reported and leaves the state as it was.\<close>

definition storage_event :: "storage \<Rightarrow> Tab \<Rightarrow> Tab" where
  "storage_event st t =
     (if subscribed t
      then (case loadCompleted st (sidebar t) of Inl e \<Rightarrow> t | Inr sb \<Rightarrow> t\<lparr>sidebar := sb\<rparr>)
      else t)"

text \<open>
  The completion button is clicked in window \<open>i\<close>. \<open>toggleCompleted\<close> runs there. The
  event it dispatches reaches the listeners of its own window; the browser sends its
  own \<open>storage\<close> event to every other window when the stored value has changed. The
  result is the state once these events have been handled.
\<close>

definition click :: "nat \<Rightarrow> Browser \<Rightarrow> js_error + Browser" where
  "click i b =
     (if i < length (tabs b) then
        (case toggleCompleted (shown (tabs b ! i)) (storageArea b) (chapterView (tabs b ! i)) of
           Inl e \<Rightarrow> Inl e
         | Inr (st', v', dispatched) \<Rightarrow>
             (let changed = (getItem st' storageKey \<noteq> getItem (storageArea b) storageKey)
              in Inr \<lparr>storageArea = st',
                      tabs = map (\<lambda>(j, t).
                                if j = i then
                                  (if dispatched then storage_event st' (t\<lparr>chapterView := v'\<rparr>)
                                   else t\<lparr>chapterView := v'\<rparr>)
                                else if changed then storage_event st' t else t)
                              (enumerate 0 (tabs b))\<rparr>))
      else Inr b)"

text \<open>A list of clicks, each given by the window in which it is made.\<close>

fun clicks :: "nat list \<Rightarrow> Browser \<Rightarrow> js_error + Browser" where
  "clicks [] b = Inr b"
| "clicks (i # is) b = (case click i b of Inl e \<Rightarrow> Inl e | Inr b' \<Rightarrow> clicks is b')"

text \<open>A window that has just opened the page of a chapter while nothing is stored.\<close>

definition opened_tab :: "Chapter \<Rightarrow> Tab" where
  "opened_tab ch =
     \<lparr>sidebar = SidebarContent_init, subscribed = True, shown = Some ch,
      chapterView = ChapterContent_init\<rparr>"

text \<open>The text in the storage after a run, which is what a restart finds.\<close>

definition stored_text :: "js_error + Browser \<Rightarrow> js_error + string option" where
  "stored_text r =
     (case r of Inl e \<Rightarrow> Inl e | Inr b \<Rightarrow> Inr (getItem (storageArea b) storageKey))"

lemma loadCompleted_after_write:
  assumes "distinct ids"
  shows "loadCompleted (setItem st storageKey (JSON_stringify (JArray (map JString ids)))) sb =
           Inr (sb\<lparr>completedChapters := map JString ids\<rparr>)"
  using JSON_stringify_array_nonempty[of "map JString ids"] assms
  by (simp add: loadCompleted_def getItem_def setItem_def parse_Set_stringify_strings
        del: JSON_stringify.simps)

lemma stored_record_cong:
  "getItem st storageKey = getItem st' storageKey \<Longrightarrow> stored_record st = stored_record st'"
  by (simp add: stored_record_def)

text \<open>
  Claim C6. Any number of windows share the storage, which holds a record of
  identifiers without the chapter's. In window \<open>a\<close> the chapter is shown, not yet
  marked, and its button is clicked. Then in every other window \<open>v\<close> whose sidebar is
  subscribed, the sidebar has reloaded the record and reports the chapter completed;
  nothing else in window \<open>v\<close> has changed, and no action was taken there.
\<close>

theorem click_reaches_other_window:
  assumes "a < length (tabs b)" and "v < length (tabs b)" and "v \<noteq> a"
    and "subscribed (tabs b ! v)"
    and "shown (tabs b ! a) = Some ch"
    and "\<not> isCompleted (chapterView (tabs b ! a))"
    and "stored_record (storageArea b) = Inr (map JString ids)"
    and "Chapter.id ch \<notin> set ids"
  shows "\<exists>b'. click a b = Inr b' \<and>
           length (tabs b') = length (tabs b) \<and>
           isChapterCompleted (sidebar (tabs b' ! v)) (Chapter.id ch) \<and>
           completedChapters (sidebar (tabs b' ! v)) = map JString (ids @ [Chapter.id ch]) \<and>
           stored_record (storageArea b') = Inr (map JString (ids @ [Chapter.id ch])) \<and>
           shown (tabs b' ! v) = shown (tabs b ! v) \<and>
           chapterView (tabs b' ! v) = chapterView (tabs b ! v)"
proof -
  define ids' where "ids' = ids @ [Chapter.id ch]"
  define st' where
    "st' = setItem (storageArea b) storageKey (JSON_stringify (JArray (map JString ids')))"
  define view' where
    "view' = (chapterView (tabs b ! a))\<lparr>isCompleted := \<not> isCompleted (chapterView (tabs b ! a))\<rparr>"
  have ti: "toggled_ids (isCompleted (chapterView (tabs b ! a))) (Chapter.id ch) ids = ids'"
    using assms(6,8) by (simp add: toggled_ids_def ids'_def)
  note t = toggleCompleted_strings[OF assms(7), where ch = ch and view = "chapterView (tabs b ! a)",
      unfolded ti, folded st'_def view'_def]
  have d: "distinct ids'"
    using stored_record_strings[OF assms(7)] assms(8) by (simp add: ids'_def)
  have changed: "getItem st' storageKey \<noteq> getItem (storageArea b) storageKey"
  proof
    assume "getItem st' storageKey = getItem (storageArea b) storageKey"
    then have "stored_record st' = stored_record (storageArea b)"
      by (rule stored_record_cong)
    then have "map JString ids' = map JString ids"
      using t(2) assms(7) by simp
    then have "length (map JString ids') = length (map JString ids)" by (rule arg_cong)
    then show False by (simp add: ids'_def)
  qed
  define f where "f = (\<lambda>(j, t).
      if j = a then storage_event st' (t\<lparr>chapterView := view'\<rparr>) else storage_event st' t)"
  define b' where "b' = \<lparr>storageArea = st', tabs = map f (enumerate 0 (tabs b))\<rparr>"
  have c: "click a b = Inr b'"
    using assms(1,5) changed by (auto simp: click_def t(1) Let_def b'_def f_def)
  have tv: "tabs b' ! v = storage_event st' (tabs b ! v)"
    using assms(2,3) by (simp add: b'_def f_def nth_enumerate_eq)
  have l: "loadCompleted st' (sidebar (tabs b ! v)) =
             Inr ((sidebar (tabs b ! v))\<lparr>completedChapters := map JString ids'\<rparr>)"
    unfolding st'_def using d by (rule loadCompleted_after_write)
  have se: "storage_event st' (tabs b ! v) =
              (tabs b ! v)\<lparr>sidebar := (sidebar (tabs b ! v))\<lparr>completedChapters := map JString ids'\<rparr>\<rparr>"
    using assms(4) by (simp add: storage_event_def l)
  show ?thesis
  proof (intro exI[of _ b'] conjI)
    show "click a b = Inr b'" by (rule c)
    show "length (tabs b') = length (tabs b)" by (simp add: b'_def)
    show "isChapterCompleted (sidebar (tabs b' ! v)) (Chapter.id ch)"
      by (simp add: tv se isChapterCompleted_def ids'_def del: map_append)
    show "completedChapters (sidebar (tabs b' ! v)) = map JString (ids @ [Chapter.id ch])"
      by (simp add: tv se ids'_def)
    show "stored_record (storageArea b') = Inr (map JString (ids @ [Chapter.id ch]))"
      using t(2) by (simp add: b'_def ids'_def)
    show "shown (tabs b' ! v) = shown (tabs b ! v)" by (simp add: tv se)
    show "chapterView (tabs b' ! v) = chapterView (tabs b ! v)" by (simp add: tv se)
  qed
qed


theorem click_reaches_other_window_witness:
  "subscribed (tabs \<lparr>storageArea = Map.empty, tabs = [opened_tab ch03, opened_tab ch01]\<rparr> ! 1) \<and>
   shown (tabs \<lparr>storageArea = Map.empty, tabs = [opened_tab ch03, opened_tab ch01]\<rparr> ! 0) =
     Some ch03 \<and>
   stored_record Map.empty = Inr (map JString []) \<and>
   \<not> isChapterCompleted (sidebar (opened_tab ch01)) ''ch03'' \<and>
   (\<exists>b'. click 0 \<lparr>storageArea = Map.empty, tabs = [opened_tab ch03, opened_tab ch01]\<rparr> = Inr b' \<and>
         isChapterCompleted (sidebar (tabs b' ! 1)) ''ch03'' \<and>
         stored_record (storageArea b') = Inr [JString ''ch03''] \<and>
         shown (tabs b' ! 1) = Some ch01 \<and>
         chapterView (tabs b' ! 1) = ChapterContent_init)"
proof -
  define b where "b = \<lparr>storageArea = Map.empty, tabs = [opened_tab ch03, opened_tab ch01]\<rparr>"
  have i: "Chapter.id ch03 = ''ch03''" by (simp add: ch03_def mkChapter_def)
  have h1: "0 < length (tabs b)" and h2: "1 < length (tabs b)" and h3: "(1::nat) \<noteq> 0"
    by (simp_all add: b_def)
  have h4: "subscribed (tabs b ! 1)" by (simp add: b_def opened_tab_def)
  have h5: "shown (tabs b ! 0) = Some ch03" by (simp add: b_def opened_tab_def)
  have h6: "\<not> isCompleted (chapterView (tabs b ! 0))"
    by (simp add: b_def opened_tab_def ChapterContent_init_def)
  have h7: "stored_record (storageArea b) = Inr (map JString [])"
    by (simp add: b_def stored_record_def getItem_def)
  have h8: "Chapter.id ch03 \<notin> set []" by simp
  have n: "\<not> isChapterCompleted (sidebar (opened_tab ch01)) ''ch03''"
    by (simp add: opened_tab_def SidebarContent_init_def isChapterCompleted_def Set_has_def)
  from click_reaches_other_window[OF h1 h2 h3 h4 h5 h6 h7 h8]
  have "\<exists>b'. click 0 b = Inr b' \<and>
             isChapterCompleted (sidebar (tabs b' ! 1)) ''ch03'' \<and>
             stored_record (storageArea b') = Inr [JString ''ch03''] \<and>
             shown (tabs b' ! 1) = Some ch01 \<and>
             chapterView (tabs b' ! 1) = ChapterContent_init"
    by (auto simp: i b_def opened_tab_def)
  with h4 h5 h7 n show ?thesis
    unfolding b_def by simp
qed

subsection \<open>Two windows on one chapter\<close>

lemma stored_record_empty: "stored_record Map.empty = Inr []"
  by (simp add: stored_record_def getItem_def)

text \<open>
  Claim C5 as the specification states it, for any sequence of toggles, fails when the
  toggles come from two windows. Both windows open the page of \<open>ch01\<close> while nothing is
  stored, so both views have their flag false. The button is clicked in the first
  window and then in the second: \<open>ch01\<close> has been toggled twice, and a restart still
  loads it, because the second view's flag was stale and its toggle added the
  identifier again.
\<close>

theorem two_windows_toggle_counterexample:
  \<open>stored_text (clicks [0, 1] \<lparr>storageArea = Map.empty, tabs = [opened_tab ch01, opened_tab ch01]\<rparr>)
     = Inr (Some ''["ch01"]'') \<and>
   loadCompleted (setItem Map.empty storageKey ''["ch01"]'') SidebarContent_init
     = Inr \<lparr>completedChapters = [JString ''ch01'']\<rparr> \<and>
   count_list [Chapter.id ch01, Chapter.id ch01] ''ch01'' = 2\<close>
proof -
  let ?b0 = "\<lparr>storageArea = Map.empty, tabs = [opened_tab ch01, opened_tab ch01]\<rparr>"
  let ?st1 = \<open>setItem Map.empty storageKey ''["ch01"]''\<close>
  have i: "Chapter.id ch01 = ''ch01''" by (simp add: ch01_def mkChapter_def)
  have t0: "toggleCompleted (Some ch01) Map.empty ChapterContent_init =
              Inr (?st1, ChapterContent_init\<lparr>isCompleted := True\<rparr>, True)"
    unfolding toggleCompleted_stored[OF stored_record_empty]
    by (simp add: i ChapterContent_init_def Set_add_def Set_has_def quote_def escape_char_def)
  have r1: "stored_record ?st1 = Inr [JString ''ch01'']" by code_simp
  have t1: "toggleCompleted (Some ch01) ?st1 ChapterContent_init =
              Inr (?st1, ChapterContent_init\<lparr>isCompleted := True\<rparr>, True)"
    unfolding toggleCompleted_stored[OF r1]
    by (simp add: i ChapterContent_init_def Set_add_def Set_has_def quote_def escape_char_def)
  have l: "loadCompleted ?st1 SidebarContent_init = Inr \<lparr>completedChapters = [JString ''ch01'']\<rparr>"
    by code_simp
  obtain b1 where c0: "click 0 ?b0 = Inr b1" and s1: "storageArea b1 = ?st1"
    and v1: "shown (tabs b1 ! 1) = Some ch01" "chapterView (tabs b1 ! 1) = ChapterContent_init"
    and n1: "length (tabs b1) = 2"
    by (simp add: click_def t0 opened_tab_def Let_def enumerate_eq_zip storage_event_def l
          upt_rec[of 0])
  obtain b2 where c1: "click 1 b1 = Inr b2" and s2: "storageArea b2 = ?st1"
    using s1 v1 n1 by (simp add: click_def t1 Let_def)
  have "clicks [0, 1] ?b0 = Inr b2" using c0 c1 by simp
  then show ?thesis using s2 l by (simp add: stored_text_def i)
qed

section \<open>Rendering a chapter page\<close>

text \<open>
  What the chapter view renders, as far as navigation is concerned: the card
  ``Chapter Not Found'' when the catalog has no chapter for the slug, a skeleton while
  the text loads, and otherwise the chapter with its state and its neighbours.
\<close>

datatype ChapterContentView =
    ChapterNotFound
  | LoadingSkeleton
  | ChapterArticle Chapter ChapterContentState "Chapter option" "Chapter option"

definition ChapterContent_render ::
    "CoursePart list \<Rightarrow> string \<Rightarrow> ChapterContentState \<Rightarrow> ChapterContentView" where
  "ChapterContent_render parts s view =
     (case getChapterBySlug parts s of
        None \<Rightarrow> ChapterNotFound
      | Some chapter \<Rightarrow>
          if loading view then LoadingSkeleton
          else ChapterArticle chapter view (getPreviousChapter parts s) (getNextChapter parts s))"

text \<open>
  The page of the route \<open>/course/[part]/[slug]\<close>. It returns the element
  \<open><ChapterContent slug=... />\<close>, or calls \<open>notFound()\<close>. The repository has the page in
  two forms. The first passes the slug on. The second looks the chapter up and reads
  its file first; its first argument stands for reading a file below \<open>public\<close>, with
  \<open>None\<close> when the read throws.
\<close>

datatype PageResult = NotFound | ChapterContent_element string "string option"

definition ChapterPage :: "RouteParams \<Rightarrow> PageResult" where
  "ChapterPage params = ChapterContent_element (RouteParams.slug params) None"

definition ChapterPage_fs ::
    "(string \<Rightarrow> string option) \<Rightarrow> CoursePart list \<Rightarrow> RouteParams \<Rightarrow> PageResult" where
  "ChapterPage_fs readPublic parts params =
     (case getChapterBySlug parts (RouteParams.slug params) of
        None \<Rightarrow> NotFound
      | Some chapter \<Rightarrow>
          (case readPublic (Chapter.path chapter) of
             None \<Rightarrow> NotFound
           | Some text \<Rightarrow> ChapterContent_element (RouteParams.slug params) (Some text)))"

text \<open>Whether a request ends on the not-found path: the page called \<open>notFound()\<close>, or
  the view it returned renders the not-found card.\<close>

definition shows_not_found :: "CoursePart list \<Rightarrow> ChapterContentState \<Rightarrow> PageResult \<Rightarrow> bool" where
  "shows_not_found parts view r =
     (case r of
        NotFound \<Rightarrow> True
      | ChapterContent_element s c \<Rightarrow> ChapterContent_render parts s view = ChapterNotFound)"

text \<open>
  Claim C2, as the code has it. Neither form of the page reads the \<open>part\<close> of the
  route: the result is the same for every part. The not-found path is taken exactly
  when the catalog has no chapter for the slug (in the second form: or the chapter's
  file cannot be read), so a known slug is rendered under any part.
\<close>

theorem ChapterPage_ignores_part:
  "ChapterPage \<lparr>part = p, slug = s\<rparr> = ChapterPage \<lparr>part = p', slug = s\<rparr> \<and>
   shows_not_found parts view (ChapterPage \<lparr>part = p, slug = s\<rparr>) =
     (getChapterBySlug parts s = None) \<and>
   ChapterPage_fs readPublic parts \<lparr>part = p, slug = s\<rparr> =
     ChapterPage_fs readPublic parts \<lparr>part = p', slug = s\<rparr> \<and>
   shows_not_found parts view (ChapterPage_fs readPublic parts \<lparr>part = p, slug = s\<rparr>) =
     (case getChapterBySlug parts s of
        None \<Rightarrow> True
      | Some chapter \<Rightarrow> readPublic (Chapter.path chapter) = None)"
  by (auto simp: ChapterPage_def ChapterPage_fs_def shows_not_found_def
        ChapterContent_render_def split: option.splits)

lemma getChapterBySlug_props: "getChapterBySlug courseParts ''props'' = Some ch06"
  by (simp add: getChapterBySlug_def getAllChapters_courseParts chapter_defs mkChapter_def)

text \<open>
  The claim as the specification states it fails for the slug \<open>props\<close>: its chapter
  \<open>ch06\<close> belongs to part 2, and the request for it under part 1 (a route that
  \<open>generateStaticParams\<close> itself produces) or part 3 is rendered, by both forms of the
  page.
\<close>

theorem ChapterPage_mismatch_counterexample:
  "getChapterBySlug courseParts ''props'' = Some ch06 \<and>
   ch06 \<in> set (CoursePart.chapters part2) \<and> CoursePart.number part2 = 2 \<and>
   \<lparr>part = ''part1'', slug = ''props''\<rparr> \<in> set (generateStaticParams courseParts) \<and>
   ChapterPage \<lparr>part = ''part1'', slug = ''props''\<rparr> = ChapterContent_element ''props'' None \<and>
   ChapterPage \<lparr>part = ''part3'', slug = ''props''\<rparr> = ChapterContent_element ''props'' None \<and>
   ChapterContent_render courseParts ''props'' \<lparr>content = ''text'', loading = False, isCompleted = False\<rparr> =
     ChapterArticle ch06 \<lparr>content = ''text'', loading = False, isCompleted = False\<rparr>
       (Some ch05) (Some ch07) \<and>
   \<not> shows_not_found courseParts \<lparr>content = ''text'', loading = False, isCompleted = False\<rparr>
       (ChapterPage \<lparr>part = ''part1'', slug = ''props''\<rparr>) \<and>
   ChapterPage_fs [Chapter.path ch06 \<mapsto> ''text''] courseParts
       \<lparr>part = ''part1'', slug = ''props''\<rparr> =
     ChapterContent_element ''props'' (Some ''text'')"
proof -
  have n: "getNextChapter courseParts ''props'' = Some ch07"
    by (simp add: getNextChapter_def getAllChapters_courseParts chapter_defs mkChapter_def Let_def)
  have pv: "getPreviousChapter courseParts ''props'' = Some ch05"
    by (simp add: getPreviousChapter_def getAllChapters_courseParts chapter_defs mkChapter_def
          Let_def)
  have g: "\<lparr>part = ''part1'', slug = ''props''\<rparr> \<in> set (generateStaticParams courseParts)"
    by (simp add: generateStaticParams_def getAllChapters_courseParts staticParamsOf_thresholds
          chapter_defs mkChapter_def)
  have r: "ChapterContent_render courseParts ''props''
             \<lparr>content = ''text'', loading = False, isCompleted = False\<rparr> =
           ChapterArticle ch06 \<lparr>content = ''text'', loading = False, isCompleted = False\<rparr>
             (Some ch05) (Some ch07)"
    by (simp add: ChapterContent_render_def getChapterBySlug_props n pv)
  show ?thesis
    using g r
    by (simp add: getChapterBySlug_props ChapterPage_def ChapterPage_fs_def shows_not_found_def
          part2_def)
qed

section \<open>Catalogs with duplicates\<close>

lemma find_Some_split:
  "(find P xs = Some x) = (\<exists>pre post. xs = pre @ x # post \<and> P x \<and> (\<forall>y \<in> set pre. \<not> P y))"
proof (induction xs)
  case Nil
  then show ?case by simp
next
  case (Cons a xs)
  show ?case
  proof (cases "P a")
    case True
    have "(\<exists>pre post. a # xs = pre @ x # post \<and> P x \<and> (\<forall>y \<in> set pre. \<not> P y)) = (a = x)"
    proof
      assume "\<exists>pre post. a # xs = pre @ x # post \<and> P x \<and> (\<forall>y \<in> set pre. \<not> P y)"
      then obtain pre post where e: "a # xs = pre @ x # post" and n: "\<forall>y \<in> set pre. \<not> P y"
        by blast
      show "a = x"
      proof (cases pre)
        case Nil
        with e show ?thesis by simp
      next
        case (Cons b bs)
        with e have "a = b" by simp
        with n Cons True show ?thesis by simp
      qed
    next
      assume "a = x"
      then have "a # xs = [] @ x # xs \<and> P x \<and> (\<forall>y \<in> set []. \<not> P y)" using True by simp
      then show "\<exists>pre post. a # xs = pre @ x # post \<and> P x \<and> (\<forall>y \<in> set pre. \<not> P y)"
        by blast
    qed
    with True show ?thesis by simp
  next
    case False
    have "(\<exists>pre post. a # xs = pre @ x # post \<and> P x \<and> (\<forall>y \<in> set pre. \<not> P y)) =
          (\<exists>pre post. xs = pre @ x # post \<and> P x \<and> (\<forall>y \<in> set pre. \<not> P y))"
    proof
      assume "\<exists>pre post. a # xs = pre @ x # post \<and> P x \<and> (\<forall>y \<in> set pre. \<not> P y)"
      then obtain pre post where e: "a # xs = pre @ x # post" and px: "P x"
        and n: "\<forall>y \<in> set pre. \<not> P y"
        by blast
      from e px False obtain bs where "pre = a # bs"
        by (cases pre) auto
      with e n px have "xs = bs @ x # post \<and> P x \<and> (\<forall>y \<in> set bs. \<not> P y)" by simp
      then show "\<exists>pre post. xs = pre @ x # post \<and> P x \<and> (\<forall>y \<in> set pre. \<not> P y)" by blast
    next
      assume "\<exists>pre post. xs = pre @ x # post \<and> P x \<and> (\<forall>y \<in> set pre. \<not> P y)"
      then obtain pre post where "xs = pre @ x # post" "P x" "\<forall>y \<in> set pre. \<not> P y"
        by blast
      then have "a # xs = (a # pre) @ x # post \<and> P x \<and> (\<forall>y \<in> set (a # pre). \<not> P y)"
        using False by simp
      then show "\<exists>pre post. a # xs = pre @ x # post \<and> P x \<and> (\<forall>y \<in> set pre. \<not> P y)"
        by blast
    qed
    with False Cons.IH show ?thesis by simp
  qed
qed

text \<open>
  Claim C3, as the code has it. The catalog is a literal that nothing validates, and
  the lookups are defined on every catalog: \<open>getChapterBySlug\<close> answers with the first
  chapter of the global order that has the slug, and with nothing exactly when no
  chapter has it. The shipped catalog has pairwise distinct identifiers, slugs and
  numbers, so on it the first chapter with a slug is the only one.
\<close>

theorem getChapterBySlug_first_match:
  "(getChapterBySlug parts s = Some c) =
     (\<exists>pre post. getAllChapters parts = pre @ c # post \<and> Chapter.slug c = s \<and>
                  s \<notin> Chapter.slug ` set pre) \<and>
   (getChapterBySlug parts s = None) = (s \<notin> Chapter.slug ` set (getAllChapters parts)) \<and>
   distinct (map Chapter.id (getAllChapters courseParts)) \<and>
   distinct (map Chapter.slug (getAllChapters courseParts)) \<and>
   distinct (map Chapter.number (getAllChapters courseParts))"
proof (intro conjI)
  have e: "(s \<notin> Chapter.slug ` set pre) = (\<forall>y \<in> set pre. \<not> Chapter.slug y = s)" for pre
    by auto
  show "(getChapterBySlug parts s = Some c) =
     (\<exists>pre post. getAllChapters parts = pre @ c # post \<and> Chapter.slug c = s \<and>
                  s \<notin> Chapter.slug ` set pre)"
    unfolding e by (simp add: getChapterBySlug_def find_Some_split)
  show "(getChapterBySlug parts s = None) = (s \<notin> Chapter.slug ` set (getAllChapters parts))"
    by (auto simp: getChapterBySlug_def find_None_iff)
qed (rule distinct_ids_courseParts distinct_slugs_courseParts distinct_numbers_courseParts)+

text \<open>A catalog of one part whose two chapters share their identifier and their
  slug.\<close>

definition twin1 :: Chapter where
  "twin1 = mkChapter ''ch01'' 1 ''First'' ''intro'' ''/a.md''"

definition twin2 :: Chapter where
  "twin2 = mkChapter ''ch01'' 2 ''Second'' ''intro'' ''/b.md''"

definition twinParts :: "CoursePart list" where
  "twinParts =
     [\<lparr>CoursePart.id = ''part1'', CoursePart.number = 1, CoursePart.title = ''One'',
       CoursePart.description = ''One part'', CoursePart.status = Completed,
       CoursePart.chapters = [twin1, twin2]\<rparr>]"

text \<open>
  The claim as the specification states it fails on this catalog: it is accepted, both
  chapters are listed, and the lookups answer; the second chapter cannot be reached by
  its slug, and it is its own successor.
\<close>

theorem duplicate_catalog_counterexample:
  "twin1 \<noteq> twin2 \<and> Chapter.id twin1 = Chapter.id twin2 \<and>
   Chapter.slug twin1 = Chapter.slug twin2 \<and>
   getAllChapters twinParts = [twin1, twin2] \<and>
   getChapterBySlug twinParts (Chapter.slug twin2) = Some twin1 \<and>
   getNextChapter twinParts (Chapter.slug twin2) = Some twin2 \<and>
   getPreviousChapter twinParts (Chapter.slug twin2) = None"
  by (simp add: twin1_def twin2_def twinParts_def mkChapter_def getAllChapters_def
        getChapterBySlug_def getNextChapter_def getPreviousChapter_def)

end
